theory Spec2Isabelle
  imports Main
begin

section \<open>Errors and entries\<close>

text \<open>
  Go strings and byte slices are sequences of bytes; they are modelled as \<open>string\<close>
  (a list of 8-bit characters), so \<open>length\<close> is Go's \<open>len\<close>.

  \<open>time.ParseError\<close> keeps the layout, the value, the layout element and the value
  element at which parsing stopped, and a message. The message is kept symbolically.
\<close>

datatype parse_msg = NoMessage | ExtraText string | OutOfRange string | DayOutOfRange

record ParseError =
  Layout :: string
  Value :: string
  LayoutElem :: string
  ValueElem :: string
  Message :: parse_msg

text \<open>
  Go's \<open>error\<close> interface: the three package-level sentinel errors of the program,
  a \<open>*time.ParseError\<close>, and any other error made by \<open>errors.New\<close> (also used
  for the opaque errors of the providers).
\<close>

datatype error =
    ErrParseLine
  | ErrMalformedPerms
  | ErrMissingJobDropboxFiles
  | TimeParseError ParseError
  | ErrorsNew string

text \<open>
  A \<open>time.Time\<close> is an instant: seconds since January 1, year 1, 00:00:00 UTC and
  nanoseconds within the second. Every time of the program is in \<open>time.Local\<close>.
\<close>

record Time =
  wall_sec :: int
  wall_nsec :: int

record FileEntry =
  filename :: string
  created :: Time
  isDirectory :: bool

section \<open>parsePermsToDirectoryFlag\<close>

text \<open>
  \<open>string(perms[0])\<close> converts a byte to the UTF-8 encoding of the code point of
  that number: one byte below 128, two bytes from 128 on.
\<close>

definition byteToString :: "char \<Rightarrow> string" where
  "byteToString b =
     (if (of_char b :: nat) < 128 then [b]
      else [char_of (192 + (of_char b :: nat) div 64), char_of (128 + (of_char b :: nat) mod 64)])"

definition HasPrefix :: "string \<Rightarrow> string \<Rightarrow> bool" where
  "HasPrefix s pre = (length pre \<le> length s \<and> take (length pre) s = pre)"

definition validPrefixes :: "string list" where
  "validPrefixes = [''d'', ''-'']"

definition parsePermsToDirectoryFlag :: "string \<Rightarrow> error + bool" where
  "parsePermsToDirectoryFlag perms =
     (if length perms \<noteq> 10 then Inl ErrMalformedPerms
      else if \<not> (byteToString (perms ! 0) \<in> set validPrefixes) then Inl ErrMalformedPerms
      else if HasPrefix perms ''d'' then Inr True
      else Inr False)"

section \<open>GetDropboxFiles\<close>

text \<open>
  The \<open>FileAccessor\<close> interface, as a record of its two methods. A method is a
  function of its arguments; the \<open>io.Reader\<close> handed to \<open>fileListingToFileEntry\<close>
  is a \<open>bytes.Reader\<close> over the listing, so the method receives the listing's bytes.
\<close>

record FileAccessor =
  getFilesList :: "string \<Rightarrow> error + string list"
  fileListingToFileEntry :: "string \<Rightarrow> error + FileEntry"

text \<open>The \<open>for ... range fileListings\<close> loop, appending to \<open>fileEntries\<close>.\<close>

fun rangeFileListings :: "FileAccessor \<Rightarrow> string list \<Rightarrow> FileEntry list \<Rightarrow> FileEntry list" where
  "rangeFileListings f [] fileEntries = fileEntries"
| "rangeFileListings f (listing # rest) fileEntries =
     (case fileListingToFileEntry f listing of
        Inl err \<Rightarrow> rangeFileListings f rest fileEntries
      | Inr entry \<Rightarrow> rangeFileListings f rest (fileEntries @ [entry]))"

definition errNoFileEntries :: error where
  "errNoFileEntries = ErrorsNew
     ''there was an error processing the file listings into file entries.  No file entries were generated''"

text \<open>
  The result is Go's pair \<open>([]FileEntry, error)\<close>: the entries (a nil slice is the
  empty list) and the error, \<open>None\<close> for nil.
\<close>

definition GetDropboxFiles :: "FileAccessor \<Rightarrow> string \<Rightarrow> FileEntry list \<times> error option" where
  "GetDropboxFiles f source =
     (case getFilesList f source of
        Inl err \<Rightarrow> ([], Some err)
      | Inr fileListings \<Rightarrow>
          (let fileEntries = rangeFileListings f fileListings []
           in if length fileListings \<noteq> 0 \<and> length fileEntries = 0
              then ([], Some errNoFileEntries)
              else (fileEntries, None)))"

section \<open>GetActiveFiles\<close>

text \<open>
  An \<open>io.Reader\<close>: what it yields before it ends, and the error it ends with, if
  any (\<open>None\<close> is a clean end of file).
\<close>

record Reader =
  content :: string
  failure :: "error option"

definition bytes_NewReader :: "string \<Rightarrow> Reader" where
  "bytes_NewReader b = \<lparr>content = b, failure = None\<rparr>"

text \<open>
  The \<open>JobLister\<close> interface. A job is a \<open>map[string][]byte\<close>; the extraction
  method takes a \<open>map[string]io.Reader\<close>.
\<close>

record JobLister =
  queryJobsList :: "string list \<Rightarrow> string list \<Rightarrow> error + (string \<rightharpoonup> string) list"
  getDropboxFilesFromJob :: "(string \<rightharpoonup> Reader) \<Rightarrow> error + string list"

text \<open>The inner loop: every value of the job wrapped in a \<open>bytes.Reader\<close>.\<close>

definition readerJob :: "(string \<rightharpoonup> string) \<Rightarrow> (string \<rightharpoonup> Reader)" where
  "readerJob job = (\<lambda>k. case job k of None \<Rightarrow> None | Some v \<Rightarrow> Some (bytes_NewReader v))"

fun rangeJobs :: "JobLister \<Rightarrow> (string \<rightharpoonup> string) list \<Rightarrow> string list \<Rightarrow> string list" where
  "rangeJobs j [] activeFiles = activeFiles"
| "rangeJobs j (job # rest) activeFiles =
     (case getDropboxFilesFromJob j (readerJob job) of
        Inl err \<Rightarrow> rangeJobs j rest activeFiles
      | Inr files \<Rightarrow> rangeJobs j rest (activeFiles @ files))"

definition GetActiveFiles :: "JobLister \<Rightarrow> string list \<Rightarrow> string list \<Rightarrow> string list \<times> error option" where
  "GetActiveFiles j attributes constraints =
     (let activeFiles = []
      in case queryJobsList j attributes constraints of
           Inl err \<Rightarrow> (activeFiles, Some err)
         | Inr jobs \<Rightarrow> (rangeJobs j jobs activeFiles, None))"

section \<open>strings.Split and strings.TrimSpace\<close>

text \<open>
  \<open>strings.Split(s, sep)\<close> for a separator of one byte: cut at the first separator
  (\<open>strings.Index\<close>), keep the part before it, go on after it; the rest without a
  separator is the last segment.
\<close>

lemma Split_termination_aux: "sep \<in> set s \<Longrightarrow> length (tl (dropWhile (\<lambda>c. c \<noteq> sep) s)) < length s"
proof -
  assume "sep \<in> set s"
  then have "dropWhile (\<lambda>c. c \<noteq> sep) s \<noteq> []" by (auto simp: dropWhile_eq_Nil_conv)
  then have "length (tl (dropWhile (\<lambda>c. c \<noteq> sep) s)) < length (dropWhile (\<lambda>c. c \<noteq> sep) s)"
    by (cases "dropWhile (\<lambda>c. c \<noteq> sep) s") auto
  also have "\<dots> \<le> length s" by (rule length_dropWhile_le)
  finally show ?thesis .
qed

function Split :: "string \<Rightarrow> char \<Rightarrow> string list" where
  "Split s sep =
     (if sep \<in> set s
      then takeWhile (\<lambda>c. c \<noteq> sep) s # Split (tl (dropWhile (\<lambda>c. c \<noteq> sep) s)) sep
      else [s])"
  by pat_completeness auto
termination
  by (relation "measure (\<lambda>(s, sep). length s)") (auto simp: Split_termination_aux simp del: length_tl)

declare Split.simps [simp del]

text \<open>
  The UTF-8 encodings of the code points with Unicode's White_Space property, which
  is what \<open>unicode.IsSpace\<close> accepts: U+0009 to U+000D, U+0020, U+0085, U+00A0,
  U+1680, U+2000 to U+200A, U+2028, U+2029, U+202F, U+205F and U+3000.
\<close>

definition spaceRunes :: "string list" where
  "spaceRunes =
     [[CHR 0x09], [CHR 0x0A], [CHR 0x0B], [CHR 0x0C], [CHR 0x0D], [CHR 0x20],
      [CHR 0xC2, CHR 0x85], [CHR 0xC2, CHR 0xA0],
      [CHR 0xE1, CHR 0x9A, CHR 0x80],
      [CHR 0xE2, CHR 0x80, CHR 0x80], [CHR 0xE2, CHR 0x80, CHR 0x81],
      [CHR 0xE2, CHR 0x80, CHR 0x82], [CHR 0xE2, CHR 0x80, CHR 0x83],
      [CHR 0xE2, CHR 0x80, CHR 0x84], [CHR 0xE2, CHR 0x80, CHR 0x85],
      [CHR 0xE2, CHR 0x80, CHR 0x86], [CHR 0xE2, CHR 0x80, CHR 0x87],
      [CHR 0xE2, CHR 0x80, CHR 0x88], [CHR 0xE2, CHR 0x80, CHR 0x89],
      [CHR 0xE2, CHR 0x80, CHR 0x8A],
      [CHR 0xE2, CHR 0x80, CHR 0xA8], [CHR 0xE2, CHR 0x80, CHR 0xA9],
      [CHR 0xE2, CHR 0x80, CHR 0xAF],
      [CHR 0xE2, CHR 0x81, CHR 0x9F],
      [CHR 0xE3, CHR 0x80, CHR 0x80]]"

text \<open>The white space rune a string starts with, and the one it ends with.\<close>

definition leadingSpace :: "string \<Rightarrow> string option" where
  "leadingSpace s = find (\<lambda>w. length w \<le> length s \<and> take (length w) s = w) spaceRunes"

definition trailingSpace :: "string \<Rightarrow> string option" where
  "trailingSpace s =
     find (\<lambda>w. length w \<le> length s \<and> drop (length s - length w) s = w) spaceRunes"

lemma find_SomeD: "find P xs = Some x \<Longrightarrow> P x \<and> x \<in> set xs"
  by (induction xs) (auto split: if_splits)

lemma spaceRunes_nonempty: "w \<in> set spaceRunes \<Longrightarrow> w \<noteq> []"
  by (auto simp: spaceRunes_def)

lemma leadingSpace_Some: "leadingSpace s = Some w \<Longrightarrow> length (drop (length w) s) < length s"
proof -
  assume "leadingSpace s = Some w"
  then have "w \<noteq> []" and "length w \<le> length s"
    by (auto simp: leadingSpace_def dest!: find_SomeD dest: spaceRunes_nonempty)
  then show ?thesis by (cases w) auto
qed

lemma trailingSpace_Some: "trailingSpace s = Some w \<Longrightarrow> length (take (length s - length w) s) < length s"
proof -
  assume "trailingSpace s = Some w"
  then have "w \<noteq> []" and "length w \<le> length s"
    by (auto simp: trailingSpace_def dest!: find_SomeD dest: spaceRunes_nonempty)
  then show ?thesis by (cases w) auto
qed

text \<open>\<open>strings.TrimLeftFunc(s, unicode.IsSpace)\<close>: drop white space runes from the front.\<close>

function TrimLeftSpace :: "string \<Rightarrow> string" where
  "TrimLeftSpace s =
     (case leadingSpace s of
        None \<Rightarrow> s
      | Some w \<Rightarrow> TrimLeftSpace (drop (length w) s))"
  by pat_completeness auto
termination
  by (relation "measure length") (simp_all add: leadingSpace_Some del: length_drop)

text \<open>\<open>strings.TrimRightFunc(s, unicode.IsSpace)\<close>: drop white space runes from the end.\<close>

function TrimRightSpace :: "string \<Rightarrow> string" where
  "TrimRightSpace s =
     (case trailingSpace s of
        None \<Rightarrow> s
      | Some w \<Rightarrow> TrimRightSpace (take (length s - length w) s))"
  by pat_completeness auto
termination
  by (relation "measure length") (simp_all add: trailingSpace_Some del: length_take)

declare TrimLeftSpace.simps [simp del] TrimRightSpace.simps [simp del]

definition TrimSpace :: "string \<Rightarrow> string" where
  "TrimSpace s = TrimRightSpace (TrimLeftSpace s)"

section \<open>CondorSchedd.getDropboxFilesFromJob\<close>

text \<open>
  \<open>io.Copy\<close> into a \<open>strings.Builder\<close>: everything the reader yields, or the
  reader's error.
\<close>

definition io_Copy :: "Reader \<Rightarrow> error + string" where
  "io_Copy val = (case failure val of None \<Rightarrow> Inr (content val) | Some err \<Rightarrow> Inl err)"

text \<open>The loop over \<open>rawSlice\<close>, appending each trimmed element to \<open>finalSlice\<close>.\<close>

fun rangeRawSlice :: "string list \<Rightarrow> string list \<Rightarrow> string list" where
  "rangeRawSlice [] finalSlice = finalSlice"
| "rangeRawSlice (elt # rest) finalSlice = rangeRawSlice rest (finalSlice @ [TrimSpace elt])"

definition CondorSchedd_getDropboxFilesFromJob :: "(string \<rightharpoonup> Reader) \<Rightarrow> error + string list" where
  "CondorSchedd_getDropboxFilesFromJob j =
     (let attribute = ''PNFS_INPUT_FILES''
      in case j attribute of
           None \<Rightarrow> Inl ErrMissingJobDropboxFiles
         | Some val \<Rightarrow>
             (case io_Copy val of
                Inl err \<Rightarrow> Inl err
              | Inr b \<Rightarrow>
                  (let rawSlice = Split b (CHR '','')
                   in Inr (rangeRawSlice rawSlice []))))"

unbundle bit_operations_syntax

section \<open>Package time: the calendar\<close>

text \<open>
  The standard library's \<open>time\<close> package, as far as the program uses it. A year is
  an \<open>int\<close> and a month is 1 to 12.

  A \<open>*time.Location\<close> is a time zone. The package reads it through its method
  \<open>lookup(sec)\<close> only, which returns, for an instant in seconds since January 1, 1970
  UTC, the offset in force at that instant (seconds east of UTC) and the bounds
  \<open>start\<close> and \<open>end\<close> of the period around the instant in which that offset holds
  (the name of the zone and the daylight saving flag, which it returns too, are not used
  here). A location is modelled by this method, so that every zone is covered, with any
  number of changes of offset (where the package keeps the last period it has looked up,
  it finds there what \<open>lookup\<close> returns). \<open>time.Local\<close> is a location \<open>loc\<close> that
  the functions below take as a parameter.
\<close>

record Location =
  Location_lookup :: "int \<Rightarrow> int \<times> int \<times> int"

text \<open>The bounds \<open>alpha\<close> and \<open>omega\<close> of a period that has no beginning or no end.\<close>

definition alpha :: int where "alpha = - (2 ^ 63)"
definition omega :: int where "omega = 2 ^ 63 - 1"

text \<open>
  \<open>time.UTC\<close>, and \<open>time.FixedZone\<close>: the location that always has the given
  offset.
\<close>

definition UTC :: Location where
  "UTC = \<lparr>Location_lookup = (\<lambda>sec. (0, alpha, omega))\<rparr>"

definition FixedZone :: "int \<Rightarrow> Location" where
  "FixedZone offset = \<lparr>Location_lookup = (\<lambda>sec. (offset, alpha, omega))\<rparr>"

text \<open>
  The seconds from January 1 of year 1 to January 1, 1970, and the conversions between
  the two counts of seconds.
\<close>

definition unixToInternal :: int where
  "unixToInternal = (1969 * 365 + 1969 div 4 - 1969 div 100 + 1969 div 400) * 86400"

definition internalToUnix :: int where
  "internalToUnix = - unixToInternal"

definition unixSec :: "Time \<Rightarrow> int" where
  "unixSec t = wall_sec t + internalToUnix"

definition unixTime :: "int \<Rightarrow> int \<Rightarrow> Time" where
  "unixTime sec nsec = \<lparr>wall_sec = sec + unixToInternal, wall_nsec = nsec\<rparr>"

definition isLeap :: "int \<Rightarrow> bool" where
  "isLeap year = (year mod 4 = 0 \<and> (year mod 100 \<noteq> 0 \<or> year mod 400 = 0))"

definition daysBefore :: "int list" where
  "daysBefore = [0, 31, 59, 90, 120, 151, 181, 212, 243, 273, 304, 334, 365]"

definition daysIn :: "int \<Rightarrow> int \<Rightarrow> int" where
  "daysIn m year =
     (if m = 2 \<and> isLeap year then 29
      else daysBefore ! nat m - daysBefore ! nat (m - 1))"

text \<open>
  \<open>norm(hi, lo, base)\<close>: bring \<open>lo\<close> into \<open>[0, base)\<close>, carrying into \<open>hi\<close>. Both
  divisions have non-negative operands, where Go's truncated division is \<open>div\<close>.
\<close>

definition norm :: "int \<Rightarrow> int \<Rightarrow> int \<Rightarrow> int \<times> int" where
  "norm hi lo base =
     (let (hi, lo) = (if lo < 0
                      then (let n = (- lo - 1) div base + 1 in (hi - n, lo + n * base))
                      else (hi, lo));
          (hi, lo) = (if lo \<ge> base
                      then (let n = lo div base in (hi + n, lo - n * base))
                      else (hi, lo))
      in (hi, lo))"

text \<open>
  Days from January 1 of year 1 to January 1 of \<open>year\<close>, by cycles of 400, 100 and 4
  years. Go counts from a year that lies a multiple of 400 years before year 1, to keep
  every intermediate value non-negative; counting from year 1 with floor division is
  the same up to that constant shift of the epoch.
\<close>

definition daysSinceEpoch :: "int \<Rightarrow> int" where
  "daysSinceEpoch year =
     (let y = year - 1;
          n = y div 400; y = y - 400 * n; d = 146097 * n;
          n = y div 100; y = y - 100 * n; d = d + 36524 * n;
          n = y div 4; y = y - 4 * n; d = d + 1461 * n;
          n = y
      in d + 365 * n)"

text \<open>
  \<open>time.Date\<close>: the fields may be outside their usual ranges and are normalised
  (October 32 is November 1). The wall clock reading is first taken as if it were UTC
  (\<open>unix\<close>) and the zone is looked up there; when the offset found is not in force at
  the instant it leads to (\<open>utc\<close> outside the period), the zone is looked up again at
  that instant. Near a change of offset a wall clock reading may not exist, or exist
  twice, in the zone: then the result is an instant that is right for one of the two
  offsets.
\<close>

definition Date :: "int \<Rightarrow> int \<Rightarrow> int \<Rightarrow> int \<Rightarrow> int \<Rightarrow> int \<Rightarrow> int \<Rightarrow> Location \<Rightarrow> Time" where
  "Date year month day hour minute sec nsec loc =
     (let m = month - 1;
          (year, m) = norm year m 12;
          month = m + 1;
          (sec, nsec) = norm sec nsec 1000000000;
          (minute, sec) = norm minute sec 60;
          (hour, minute) = norm hour minute 60;
          (day, hour) = norm day hour 24;
          d = daysSinceEpoch year;
          d = d + daysBefore ! nat (month - 1);
          d = (if isLeap year \<and> month \<ge> 3 then d + 1 else d);
          d = d + (day - 1);
          abs = d * 86400;
          abs = abs + (hour * 3600 + minute * 60 + sec);
          unix = abs + internalToUnix;
          (offset, zstart, zend) = Location_lookup loc unix;
          unix = (if offset \<noteq> 0
                  then (let utc = unix - offset;
                            offset = (if utc < zstart \<or> utc \<ge> zend
                                      then (case Location_lookup loc utc of (offset, zstart, zend) \<Rightarrow> offset)
                                      else offset)
                        in unix - offset)
                  else unix)
      in unixTime unix nsec)"

text \<open>
  \<open>absDate\<close>: year, month, day and day of the year of a count of seconds since
  January 1 of year 1. Its first half finds the year and the day of the year by the
  same cycles (\<open>n >> 2\<close> is \<open>n div 4\<close>); its second half estimates the month as
  \<open>day / 31\<close> and corrects the estimate. The two halves are named here.
\<close>

definition yearOfDays :: "int \<Rightarrow> int \<times> int" where
  "yearOfDays d0 =
     (let d = d0;
          n = d div 146097; y = 400 * n; d = d - 146097 * n;
          n = d div 36524; n = n - n div 4; y = y + 100 * n; d = d - 36524 * n;
          n = d div 1461; y = y + 4 * n; d = d - 1461 * n;
          n = d div 365; n = n - n div 4; y = y + n; d = d - 365 * n
      in (y + 1, d))"

definition monthOfDay :: "int \<Rightarrow> int \<times> int" where
  "monthOfDay day =
     (let month = day div 31;
          month_end = daysBefore ! nat (month + 1);
          (month, month_begin) = (if day \<ge> month_end then (month + 1, month_end)
                                  else (month, daysBefore ! nat month));
          month = month + 1;
          day = day - month_begin + 1
      in (month, day))"

definition absDate :: "int \<Rightarrow> int \<times> int \<times> int \<times> int" where
  "absDate absolute =
     (case yearOfDays (absolute div 86400) of (year, yday) \<Rightarrow>
        (let day = yday
         in if isLeap year \<and> day = 31 + 29 - 1 then (year, 2, 29, yday)
            else (case monthOfDay (if isLeap year \<and> day > 31 + 29 - 1 then day - 1 else day) of
                    (month, day) \<Rightarrow> (year, month, day, yday))))"

text \<open>
  \<open>t.abs()\<close>: the wall clock reading of the instant \<open>t\<close> in its zone, with the
  offset that is in force at \<open>t\<close>. It is counted in seconds since January 1 of
  year 1 here (Go counts it from the earlier year mentioned above, which is the same up to
  the constant shift).
\<close>

definition Time_abs :: "Time \<Rightarrow> Location \<Rightarrow> int" where
  "Time_abs t loc =
     (let sec = unixSec t
      in case Location_lookup loc sec of (offset, zstart, zend) \<Rightarrow> sec + offset + unixToInternal)"

text \<open>\<open>t.Date()\<close>, \<open>t.Year()\<close> and \<open>t.Clock()\<close> read the time in its zone.\<close>

definition Time_Date :: "Time \<Rightarrow> Location \<Rightarrow> int \<times> int \<times> int" where
  "Time_Date t loc = (case absDate (Time_abs t loc) of (year, month, day, yday) \<Rightarrow> (year, month, day))"

definition Year :: "Time \<Rightarrow> Location \<Rightarrow> int" where
  "Year t loc = (case absDate (Time_abs t loc) of (year, month, day, yday) \<Rightarrow> year)"

definition Clock :: "Time \<Rightarrow> Location \<Rightarrow> int \<times> int \<times> int" where
  "Clock t loc =
     (let sec = Time_abs t loc mod 86400;
          hour = sec div 3600;
          sec = sec - hour * 3600;
          minute = sec div 60;
          sec = sec - minute * 60
      in (hour, minute, sec))"

text \<open>
  \<open>t.AddDate(years, months, days)\<close> reads the date and the clock of \<open>t\<close> in its
  zone and makes the date anew, in the same zone.
\<close>

definition AddDate :: "Time \<Rightarrow> int \<Rightarrow> int \<Rightarrow> int \<Rightarrow> Location \<Rightarrow> Time" where
  "AddDate t years months days loc =
     (case Time_Date t loc of (year, month, day) \<Rightarrow>
        (case Clock t loc of (hour, minute, sec) \<Rightarrow>
           Date (year + years) (month + months) (day + days) hour minute sec (wall_nsec t) loc))"

definition After :: "Time \<Rightarrow> Time \<Rightarrow> bool" where
  "After t u = (wall_sec t > wall_sec u \<or> (wall_sec t = wall_sec u \<and> wall_nsec t > wall_nsec u))"

text \<open>
  A \<open>time.Duration\<close> is a count of nanoseconds in an \<open>int64\<close>. \<open>t.Sub(u)\<close> is the
  duration \<open>t - u\<close>; when that is beyond what a Duration holds, the largest (or
  smallest) Duration is returned.
\<close>

definition maxDuration :: int where "maxDuration = 2 ^ 63 - 1"
definition minDuration :: int where "minDuration = - (2 ^ 63)"

definition Sub :: "Time \<Rightarrow> Time \<Rightarrow> int" where
  "Sub t u =
     (let d = (wall_sec t - wall_sec u) * 1000000000 + (wall_nsec t - wall_nsec u)
      in if d > maxDuration then maxDuration
         else if d < minDuration then minDuration
         else d)"

section \<open>Package time: Parse\<close>

text \<open>
  \<open>time.Parse\<close> reads the layout one element at a time (\<open>nextStdChunk\<close>): the text
  before the next element, the element, and the rest of the layout. Of the layout
  elements, the five are modelled that the two layouts of the program contain:
  \<open>Jan\<close>, \<open>2\<close>, \<open>15\<close>, \<open>04\<close> and \<open>2006\<close>.
\<close>

datatype std = stdMonth | stdDay | stdHour | stdZeroMinute | stdLongYear

definition startsWithLowerCase :: "string \<Rightarrow> bool" where
  "startsWithLowerCase str =
     (case str of [] \<Rightarrow> False
      | c # _ \<Rightarrow> (of_char (CHR ''a'') :: nat) \<le> of_char c \<and> (of_char c :: nat) \<le> of_char (CHR ''z''))"

fun nextStdChunkFrom :: "string \<Rightarrow> string \<Rightarrow> string \<times> std option \<times> string" where
  "nextStdChunkFrom pre [] = (pre, None, [])"
| "nextStdChunkFrom pre (c # rest) =
     (if c = CHR ''J'' \<and> HasPrefix (c # rest) ''Jan'' \<and> \<not> startsWithLowerCase (drop 3 (c # rest))
      then (pre, Some stdMonth, drop 3 (c # rest))
      else if c = CHR ''0'' \<and> HasPrefix (c # rest) ''04''
      then (pre, Some stdZeroMinute, drop 2 (c # rest))
      else if c = CHR ''1'' \<and> HasPrefix (c # rest) ''15''
      then (pre, Some stdHour, drop 2 (c # rest))
      else if c = CHR ''2'' \<and> HasPrefix (c # rest) ''2006''
      then (pre, Some stdLongYear, drop 4 (c # rest))
      else if c = CHR ''2''
      then (pre, Some stdDay, rest)
      else nextStdChunkFrom (pre @ [c]) rest)"

definition nextStdChunk :: "string \<Rightarrow> string \<times> std option \<times> string" where
  "nextStdChunk layout = nextStdChunkFrom [] layout"

text \<open>\<open>cutspace\<close> and \<open>skip\<close>: a space of the layout stands for any run of spaces.\<close>

definition cutspace :: "string \<Rightarrow> string" where
  "cutspace s = dropWhile (\<lambda>c. c = CHR '' '') s"

function skip :: "string \<Rightarrow> string \<Rightarrow> string \<times> bool" where
  "skip val [] = (val, False)"
| "skip val (p # ps) =
     (if p = CHR '' ''
      then (if length val > 0 \<and> val ! 0 \<noteq> CHR '' '' then (val, True)
            else skip (cutspace val) (cutspace (p # ps)))
      else if length val = 0 \<or> val ! 0 \<noteq> p then (val, True)
      else skip (drop 1 val) ps)"
  by pat_completeness auto
termination
proof (relation "measure (\<lambda>(val, pre). length pre)")
  show "wf (measure (\<lambda>(val, pre). length pre))" by simp
next
  fix val :: string and p :: char and ps :: string
  assume "p = CHR '' ''"
  then have "cutspace (p # ps) = cutspace ps" by (simp add: cutspace_def)
  moreover have "length (cutspace ps) \<le> length ps" by (simp add: cutspace_def length_dropWhile_le)
  ultimately show "((cutspace val, cutspace (p # ps)), (val, p # ps)) \<in> measure (\<lambda>(val, pre). length pre)"
    by simp
next
  fix val :: string and p :: char and ps :: string
  show "((drop 1 val, ps), (val, p # ps)) \<in> measure (\<lambda>(val, pre). length pre)" by simp
qed

text \<open>
  \<open>isDigit\<close>, \<open>getnum\<close> (one or two digits; exactly two when \<open>fixed\<close>), \<open>atoi\<close>
  and \<open>lookup\<close> with its \<open>match\<close>, which ignores the case of letters. The last
  component of a result is \<open>True\<close> for the error \<open>errBad\<close>.
\<close>

definition isDigit :: "string \<Rightarrow> nat \<Rightarrow> bool" where
  "isDigit s i =
     (if length s \<le> i then False
      else (of_char (CHR ''0'') :: nat) \<le> of_char (s ! i) \<and> (of_char (s ! i) :: nat) \<le> of_char (CHR ''9''))"

definition digitVal :: "char \<Rightarrow> int" where
  "digitVal c = int (of_char c) - int (of_char (CHR ''0''))"

definition getnum :: "string \<Rightarrow> bool \<Rightarrow> int \<times> string \<times> bool" where
  "getnum s fixed =
     (if \<not> isDigit s 0 then (0, s, True)
      else if \<not> isDigit s 1 then (if fixed then (0, s, True) else (digitVal (s ! 0), drop 1 s, False))
      else (digitVal (s ! 0) * 10 + digitVal (s ! 1), drop 2 s, False))"

text \<open>
  \<open>leadingInt\<close> reads the digits at the front; its overflow check cannot fire on the
  four characters \<open>atoi\<close> is called with here and is left out.
\<close>

fun leadingInt :: "string \<Rightarrow> int \<Rightarrow> int \<times> string" where
  "leadingInt [] x = (x, [])"
| "leadingInt (c # cs) x =
     (if (of_char c :: nat) < of_char (CHR ''0'') \<or> (of_char c :: nat) > of_char (CHR ''9'') then (x, c # cs)
      else leadingInt cs (x * 10 + digitVal c))"

definition atoi :: "string \<Rightarrow> int \<times> bool" where
  "atoi s0 =
     (let neg = (length s0 > 0 \<and> s0 ! 0 = CHR ''-'');
          s = (if length s0 > 0 \<and> (s0 ! 0 = CHR ''-'' \<or> s0 ! 0 = CHR ''+'') then drop 1 s0 else s0)
      in case leadingInt s 0 of (q, rem) \<Rightarrow>
           if length rem > 0 then (0, True)
           else (if neg then - q else q, False))"

definition lowerBit :: "char \<Rightarrow> nat" where
  "lowerBit c = (of_char c :: nat) OR 32"

fun match :: "string \<Rightarrow> string \<Rightarrow> bool" where
  "match (c1 # s1) (c2 # s2) =
     (if c1 \<noteq> c2
      then (if lowerBit c1 \<noteq> lowerBit c2 \<or> lowerBit c1 < of_char (CHR ''a'')
               \<or> lowerBit c1 > of_char (CHR ''z'')
            then False
            else match s1 s2)
      else match s1 s2)"
| "match s1 s2 = True"

definition shortMonthNames :: "string list" where
  "shortMonthNames = [''Jan'', ''Feb'', ''Mar'', ''Apr'', ''May'', ''Jun'',
                      ''Jul'', ''Aug'', ''Sep'', ''Oct'', ''Nov'', ''Dec'']"

fun lookupFrom :: "int \<Rightarrow> string list \<Rightarrow> string \<Rightarrow> int \<times> string \<times> bool" where
  "lookupFrom i [] val = (-1, val, True)"
| "lookupFrom i (v # tab) val =
     (if length val \<ge> length v \<and> match (take (length v) val) v
      then (i, drop (length v) val, False)
      else lookupFrom (i + 1) tab val)"

definition lookup :: "string list \<Rightarrow> string \<Rightarrow> int \<times> string \<times> bool" where
  "lookup tab val = lookupFrom 0 tab val"


text \<open>
  The fields \<open>parse\<close> fills in, with their defaults: year 0, and -1 for a month or a
  day that the layout does not set.
\<close>

record fields =
  f_year :: int
  f_month :: int
  f_day :: int
  f_hour :: int
  f_min :: int

definition newParseError :: "string \<Rightarrow> string \<Rightarrow> string \<Rightarrow> string \<Rightarrow> parse_msg \<Rightarrow> ParseError" where
  "newParseError layout val layoutElem valueElem msg =
     \<lparr>Layout = layout, Value = val, LayoutElem = layoutElem, ValueElem = valueElem, Message = msg\<rparr>"

text \<open>
  One element of the layout read from the value: the rest of the value, the fields,
  the name of a field that is out of range (empty when none is), and the error flag.
\<close>

definition parseStd :: "std \<Rightarrow> string \<Rightarrow> fields \<Rightarrow> string \<times> fields \<times> string \<times> bool" where
  "parseStd sd val st =
     (case sd of
        stdLongYear \<Rightarrow>
          (if length val < 4 \<or> \<not> isDigit val 0 then (val, st, [], True)
           else (case atoi (take 4 val) of (year, err) \<Rightarrow>
                   (drop 4 val, st\<lparr>f_year := year\<rparr>, [], err)))
      | stdMonth \<Rightarrow>
          (case lookup shortMonthNames val of (month, rest, err) \<Rightarrow>
             (rest, st\<lparr>f_month := month + 1\<rparr>, [], err))
      | stdDay \<Rightarrow>
          (case getnum val False of (day, rest, err) \<Rightarrow>
             (rest, st\<lparr>f_day := day\<rparr>, [], err))
      | stdHour \<Rightarrow>
          (case getnum val False of (hour, rest, err) \<Rightarrow>
             (rest, st\<lparr>f_hour := hour\<rparr>, if hour < 0 \<or> 24 \<le> hour then ''hour'' else [], err))
      | stdZeroMinute \<Rightarrow>
          (case getnum val True of (minute, rest, err) \<Rightarrow>
             (rest, st\<lparr>f_min := minute\<rparr>, if minute < 0 \<or> 60 \<le> minute then ''minute'' else [], err)))"

lemma nextStdChunkFrom_shorter:
  "nextStdChunkFrom pre layout = (prefix, Some sd, suffix) \<Longrightarrow> length suffix < length layout"
proof (induction layout arbitrary: pre)
  case Nil
  then show ?case by simp
next
  case (Cons c rest)
  show ?case
  proof (cases "nextStdChunkFrom pre (c # rest) = nextStdChunkFrom (pre @ [c]) rest")
    case True
    then have "length suffix < length rest" using Cons by simp
    then show ?thesis by simp
  next
    case False
    then show ?thesis using Cons.prems by (auto split: if_splits)
  qed
qed

lemma nextStdChunk_shorter:
  "(prefix, Some sd, suffix) = nextStdChunk layout \<Longrightarrow> length suffix < length layout"
  unfolding nextStdChunk_def by (metis nextStdChunkFrom_shorter)

text \<open>
  The loop of \<open>parse\<close>: each round reads the text before the next layout element
  and the element; after the last element no text of the value may be left.
\<close>

function parseLoop :: "string \<Rightarrow> string \<Rightarrow> string \<Rightarrow> string \<Rightarrow> fields \<Rightarrow> ParseError + fields \<times> string" where
  "parseLoop alayout avalue layout val st =
     (case nextStdChunk layout of (prefix, sd, suffix) \<Rightarrow>
        (let stdstr = take (length layout - length prefix - length suffix) (drop (length prefix) layout)
         in case skip val prefix of
              (val, True) \<Rightarrow> Inl (newParseError alayout avalue prefix val NoMessage)
            | (val, False) \<Rightarrow>
                (case sd of
                   None \<Rightarrow>
                     (if length val \<noteq> 0
                      then Inl (newParseError alayout avalue [] val (ExtraText val))
                      else Inr (st, val))
                 | Some elem \<Rightarrow>
                     (let hold = val
                      in case parseStd elem val st of (val, st, rangeErrString, err) \<Rightarrow>
                           if rangeErrString \<noteq> []
                           then Inl (newParseError alayout avalue stdstr val (OutOfRange rangeErrString))
                           else if err
                           then Inl (newParseError alayout avalue stdstr hold NoMessage)
                           else parseLoop alayout avalue suffix val st))))"
  by pat_completeness auto
termination
  by (relation "measure (\<lambda>(alayout, avalue, layout, val, st). length layout)")
     (auto dest: nextStdChunk_shorter)

declare parseLoop.simps [simp del]

text \<open>
  The part of \<open>parse\<close> before the call of \<open>Date\<close>: the loop, the defaults of month
  and day, and the check of the day against the month.
\<close>

definition parseFields :: "string \<Rightarrow> string \<Rightarrow> ParseError + int \<times> int \<times> int \<times> int \<times> int" where
  "parseFields layout val =
     (case parseLoop layout val layout val
             \<lparr>f_year = 0, f_month = - 1, f_day = - 1, f_hour = 0, f_min = 0\<rparr> of
        Inl err \<Rightarrow> Inl err
      | Inr (st, rest) \<Rightarrow>
          (let month = (if f_month st < 0 then 1 else f_month st);
               day = (if f_day st < 0 then 1 else f_day st)
           in if day < 1 \<or> day > daysIn month (f_year st)
              then Inl (newParseError layout val [] rest DayOutOfRange)
              else Inr (f_year st, month, day, f_hour st, f_min st)))"

definition ParseInLocation :: "string \<Rightarrow> string \<Rightarrow> Location \<Rightarrow> ParseError + Time" where
  "ParseInLocation layout val loc =
     (case parseFields layout val of
        Inl err \<Rightarrow> Inl err
      | Inr (year, month, day, hour, minute) \<Rightarrow> Inr (Date year month day hour minute 0 0 loc))"

section \<open>parseDateStampToTime and fileIsRecent\<close>

definition dateWithTimeNoYearLayout :: string where
  "dateWithTimeNoYearLayout = ''Jan  2 15:04''"

definition dateWithYearLayout :: string where
  "dateWithYearLayout = ''Jan 2 2006''"

definition recentDuration :: int where
  "recentDuration = 30 * (3600 * 1000000000) * 24"

text \<open>
  The package variable \<open>now\<close> is read once, at start; it is a parameter here, and so
  is the location \<open>loc\<close> that \<open>time.Local\<close> stands for. The program has no other
  location: \<open>now\<close> and every time it parses are in \<open>time.Local\<close>.
\<close>

definition parseDateStampToTime :: "Location \<Rightarrow> Time \<Rightarrow> string \<Rightarrow> error + Time" where
  "parseDateStampToTime loc now dateString =
     (case ParseInLocation dateWithTimeNoYearLayout dateString loc of
        Inr rawDateStamp \<Rightarrow>
          (let yearDateStamp = AddDate rawDateStamp (Year now loc) 0 0 loc
           in if After yearDateStamp now
              then Inr (AddDate yearDateStamp (- 1) 0 0 loc)
              else Inr yearDateStamp)
      | Inl err1 \<Rightarrow>
          (case ParseInLocation dateWithYearLayout dateString loc of
             Inl err \<Rightarrow> Inl (TimeParseError err)
           | Inr rawDateStamp \<Rightarrow> Inr rawDateStamp))"

definition fileIsRecent :: "Time \<Rightarrow> FileEntry \<Rightarrow> bool" where
  "fileIsRecent now f = (Sub now (created f) < recentDuration)"

section \<open>Package regexp, and lineRegex\<close>

text \<open>
  A regular expression as the syntax tree of what the program compiles: a character
  class, a concatenation, an alternation (the left side is preferred), a greedy
  repetition of one or more, and a numbered capturing group.
\<close>

datatype re = Cls "char \<Rightarrow> bool" | Seq re re | Alt re re | Plus re | Cap nat re












section \<open>scanDropboxLineToFileEntry\<close>


section \<open>The shape of a listing line\<close>





section \<open>The providers of the tests\<close>

text \<open>
  \<open>testFileAccessor\<close> of the tests: the listing is the file names of its entries (or
  an error), and a listing converts to the first entry of that name, or to an error when
  the flag of that entry is set. The tests give one flag for every entry.
\<close>

fun testFileListingToFileEntry :: "FileEntry list \<Rightarrow> bool list \<Rightarrow> nat \<Rightarrow> string \<Rightarrow> error + FileEntry" where
  "testFileListingToFileEntry [] errorsByFileEntry idx fname =
     Inl (ErrorsNew ''File not found in testFileAccessor'')"
| "testFileListingToFileEntry (entry # rest) errorsByFileEntry idx fname =
     (if filename entry = fname
      then (if errorsByFileEntry ! idx then Inl (ErrorsNew ''Fake error that we staged'')
            else Inr entry)
      else testFileListingToFileEntry rest errorsByFileEntry (idx + 1) fname)"

definition newTestFileAccessor :: "FileEntry list \<Rightarrow> bool \<Rightarrow> bool list \<Rightarrow> FileAccessor" where
  "newTestFileAccessor files existsFileListingError errorsByFileEntry =
     \<lparr>getFilesList = (\<lambda>source. if existsFileListingError
                                 then Inl (ErrorsNew ''some generic file listing error'')
                                 else Inr (map filename files)),
      fileListingToFileEntry = testFileListingToFileEntry files errorsByFileEntry 0\<rparr>"

text \<open>
  \<open>testJobLister\<close> of the tests: one job for every file string, holding it under
  \<open>FILE_ATTRIBUTE\<close>; the extraction fails for the file strings flagged as errors (the
  last flag given for a string counts) and splits the others on commas.
\<close>

definition newTestJobLister :: "bool \<Rightarrow> (string \<times> bool) list \<Rightarrow> JobLister" where
  "newTestJobLister queryError filestrings =
     \<lparr>queryJobsList = (\<lambda>attributes constraints.
        if queryError then Inl (ErrorsNew ''this is an error'')
        else Inr (map (\<lambda>file. [''FILE_ATTRIBUTE'' \<mapsto> fst file]) filestrings)),
      getDropboxFilesFromJob = (\<lambda>j.
        case j ''FILE_ATTRIBUTE'' of
          Some val \<Rightarrow>
            (if map_of (rev filestrings) (content val) = Some True then Inl (ErrorsNew ''error!'')
             else Inr (Split (content val) (CHR '','')))
        | None \<Rightarrow> Inl (ErrorsNew ''key missing''))\<rparr>"

section \<open>Auxiliary notions for the calendar proofs\<close>

text \<open>The length of a year in days.\<close>

definition yearLen :: "int \<Rightarrow> int" where
  "yearLen y = (if isLeap y then 366 else 365)"

text \<open>
  The day of the year of a month and a day, as \<open>Date\<close> adds it up, and the usual
  ranges of the clock fields.
\<close>

definition ydayOf :: "int \<Rightarrow> int \<Rightarrow> int \<Rightarrow> int" where
  "ydayOf year month day =
     daysBefore ! nat (month - 1) + (if isLeap year \<and> month \<ge> 3 then 1 else 0) + (day - 1)"

definition validClock :: "int \<Rightarrow> int \<Rightarrow> int \<Rightarrow> bool" where
  "validClock hour minute sec =
     (0 \<le> hour \<and> hour < 24 \<and> 0 \<le> minute \<and> minute < 60 \<and> 0 \<le> sec \<and> sec < 60)"

text \<open>
  The wall clock reading of a date with fields in their usual ranges, in seconds since
  January 1 of year 1.
\<close>

definition civil :: "int \<Rightarrow> int \<Rightarrow> int \<Rightarrow> int \<Rightarrow> int \<Rightarrow> int \<Rightarrow> int" where
  "civil year month day hour minute sec =
     (daysSinceEpoch year + ydayOf year month day) * 86400 + (hour * 3600 + minute * 60 + sec)"

section \<open>Auxiliary notions for time zones\<close>

text \<open>The offset in force at an instant, and the offset that \<open>Date\<close> subtracts.\<close>

definition offsetAt :: "Location \<Rightarrow> int \<Rightarrow> int" where
  "offsetAt loc sec = (case Location_lookup loc sec of (offset, zstart, zend) \<Rightarrow> offset)"

definition dateOffset :: "Location \<Rightarrow> int \<Rightarrow> int" where
  "dateOffset loc unix =
     (case Location_lookup loc unix of (offset, zstart, zend) \<Rightarrow>
        if offset \<noteq> 0 \<and> (unix - offset < zstart \<or> unix - offset \<ge> zend)
        then offsetAt loc (unix - offset)
        else offset)"

text \<open>
  The wall clock reading of a date taken as if it were UTC, in seconds since
  January 1, 1970: the value \<open>unix\<close> at which \<open>Date\<close> first looks the zone up.
\<close>

definition wallUnix :: "int \<Rightarrow> int \<Rightarrow> int \<Rightarrow> int \<Rightarrow> int \<Rightarrow> int \<Rightarrow> int" where
  "wallUnix year month day hour minute sec = unixSec (Date year month day hour minute sec 0 UTC)"

text \<open>
  A wall clock reading \<open>unix\<close> is settled at the offset \<open>off\<close> when that offset is
  in force at both instants at which \<open>Date\<close> may look the zone up: the reading taken as
  UTC, and the instant that the offset leads to. This is so whenever no change of offset
  is near; it fails for a reading that a change of offset skips.
\<close>

definition settled :: "Location \<Rightarrow> int \<Rightarrow> int \<Rightarrow> bool" where
  "settled loc off unix = (offsetAt loc unix = off \<and> offsetAt loc (unix - off) = off)"

text \<open>
  The offsets of a zone are within \<open>M\<close> seconds of UTC; and a zone is calm around
  the instant \<open>c\<close> when one offset is in force from \<open>3 * M\<close> seconds before \<open>c\<close>
  to \<open>3 * M\<close> seconds after it.
\<close>

definition offsetsWithin :: "Location \<Rightarrow> int \<Rightarrow> bool" where
  "offsetsWithin loc M = (\<forall>s. - M \<le> offsetAt loc s \<and> offsetAt loc s \<le> M)"

definition calm :: "Location \<Rightarrow> int \<Rightarrow> int \<Rightarrow> bool" where
  "calm loc M c = (\<exists>off. \<forall>s. c - 3 * M \<le> s \<and> s < c + 3 * M \<longrightarrow> offsetAt loc s = off)"

section \<open>Two zones for the examples\<close>

text \<open>
  The zone \<open>America/Chicago\<close> in the years 2022 to 2025, from the time zone database:
  six hours west of UTC, five in summer, with the changes of these years. Before 2022 and
  after 2025 it is left at six hours west, where the database has the earlier and later
  changes.
\<close>

definition chicago :: Location where
  "chicago = \<lparr>Location_lookup = (\<lambda>sec.
     if sec < 1647158400 then (- 21600, alpha, 1647158400)
     else if sec < 1667718000 then (- 18000, 1647158400, 1667718000)
     else if sec < 1678608000 then (- 21600, 1667718000, 1678608000)
     else if sec < 1699167600 then (- 18000, 1678608000, 1699167600)
     else if sec < 1710057600 then (- 21600, 1699167600, 1710057600)
     else if sec < 1730617200 then (- 18000, 1710057600, 1730617200)
     else if sec < 1741507200 then (- 21600, 1730617200, 1741507200)
     else if sec < 1762066800 then (- 18000, 1741507200, 1762066800)
     else (- 21600, 1762066800, omega))\<rparr>"

text \<open>
  The zone \<open>Pacific/Kiritimati\<close>, from the time zone database: local mean time until
  1901, then 10 hours 40 minutes and from 1979 10 hours west of UTC, and 14 hours east of
  UTC since December 31, 1994, 10:00 UTC. The local date went from December 30, 1994 to
  January 1, 1995: the zone has no December 31, 1994.
\<close>

definition kiritimati :: Location where
  "kiritimati = \<lparr>Location_lookup = (\<lambda>sec.
     if sec < - 2177415040 then (- 37760, alpha, - 2177415040)
     else if sec < 307622400 then (- 38400, - 2177415040, 307622400)
     else if sec < 788868000 then (- 36000, 307622400, 788868000)
     else (50400, 788868000, omega))\<rparr>"

section \<open>Auxiliary notions for the matcher\<close>

text \<open>
  The language of an expression: the strings it matches as a whole, without captures and
  without an order among the matches.
\<close>

inductive matches :: "re \<Rightarrow> string \<Rightarrow> bool" where
  m_Cls: "p x \<Longrightarrow> matches (Cls p) [x]"
| m_Seq: "matches a u \<Longrightarrow> matches b v \<Longrightarrow> matches (Seq a b) (u @ v)"
| m_AltL: "matches a u \<Longrightarrow> matches (Alt a b) u"
| m_AltR: "matches b u \<Longrightarrow> matches (Alt a b) u"
| m_Plus1: "matches a u \<Longrightarrow> matches (Plus a) u"
| m_PlusN: "matches a u \<Longrightarrow> matches (Plus a) v \<Longrightarrow> matches (Plus a) (u @ v)"
| m_Cap: "matches a u \<Longrightarrow> matches (Cap n a) u"









section \<open>Properties of the permission classifier\<close>

lemma byteToString_single: "byteToString b = [c] \<longleftrightarrow> (of_char b :: nat) < 128 \<and> b = c"
  by (simp add: byteToString_def)

lemma byteToString_valid: "byteToString b \<in> set validPrefixes \<longleftrightarrow> b = CHR ''d'' \<or> b = CHR ''-''"
  by (auto simp: validPrefixes_def byteToString_single)

lemma take_1_string: "length p = 10 \<Longrightarrow> take 1 p = [c] \<longleftrightarrow> p ! 0 = c"
  by (cases p) auto

text \<open>
  Claim C4. For every permission string, \<open>parsePermsToDirectoryFlag\<close> fails with
  \<open>ErrMalformedPerms\<close> exactly when the length is not 10 or the first character is
  neither \<open>d\<close> nor \<open>-\<close>; otherwise it returns true for \<open>d\<close> and false for
  \<open>-\<close>.
\<close>

theorem parsePermsToDirectoryFlag_spec:
  "parsePermsToDirectoryFlag perms =
     (if length perms \<noteq> 10 \<or> (take 1 perms \<noteq> ''d'' \<and> take 1 perms \<noteq> ''-'')
      then Inl ErrMalformedPerms
      else Inr (take 1 perms = ''d''))"
proof (cases "length perms = 10")
  case False
  then show ?thesis by (simp add: parsePermsToDirectoryFlag_def)
next
  case True
  then obtain c cs where p: "perms = c # cs" by (cases perms) auto
  show ?thesis
    using True unfolding parsePermsToDirectoryFlag_def byteToString_valid HasPrefix_def
    by (auto simp: p)
qed

theorem parsePermsToDirectoryFlag_spec_witness:
  "parsePermsToDirectoryFlag ''drwxrwxrwx'' = Inr True
   \<and> parsePermsToDirectoryFlag ''-rwxrwxrwx'' = Inr False
   \<and> parsePermsToDirectoryFlag ''boogityboo'' = Inl ErrMalformedPerms
   \<and> parsePermsToDirectoryFlag ''drwx'' = Inl ErrMalformedPerms"
  using parsePermsToDirectoryFlag_spec [of "''drwxrwxrwx''"]
    parsePermsToDirectoryFlag_spec [of "''-rwxrwxrwx''"]
    parsePermsToDirectoryFlag_spec [of "''boogityboo''"]
    parsePermsToDirectoryFlag_spec [of "''drwx''"]
  by simp

section \<open>Properties of the two collectors\<close>

lemma rangeFileListings_acc:
  "rangeFileListings f ls acc =
     acc @ map (projr \<circ> fileListingToFileEntry f) (filter (\<lambda>l. \<not> isl (fileListingToFileEntry f l)) ls)"
proof (induction ls arbitrary: acc)
  case Nil
  show ?case by simp
next
  case (Cons l ls)
  show ?case
    by (cases "fileListingToFileEntry f l") (simp_all add: Cons.IH)
qed

text \<open>
  Claim C2. For \<open>GetDropboxFiles\<close> with any listing provider and location: a
  failure of \<open>getFilesList\<close> is returned at once with no entries; otherwise the
  entries whose conversion fails are skipped and the converted ones are returned, in
  order, with no error; and when the listing is not empty and every entry fails to
  convert, no entries and a non-nil aggregate error are returned.
\<close>

theorem GetDropboxFiles_fail_soft:
  "(\<forall>err. getFilesList f source = Inl err \<longrightarrow> GetDropboxFiles f source = ([], Some err))
   \<and> (\<forall>ls. getFilesList f source = Inr ls
          \<and> (ls = [] \<or> (\<exists>l \<in> set ls. \<not> isl (fileListingToFileEntry f l)))
        \<longrightarrow> GetDropboxFiles f source =
              (map (projr \<circ> fileListingToFileEntry f)
                 (filter (\<lambda>l. \<not> isl (fileListingToFileEntry f l)) ls), None))
   \<and> (\<forall>ls. getFilesList f source = Inr ls \<and> ls \<noteq> []
          \<and> (\<forall>l \<in> set ls. isl (fileListingToFileEntry f l))
        \<longrightarrow> GetDropboxFiles f source = ([], Some errNoFileEntries))"
proof (intro conjI allI impI)
  fix err assume "getFilesList f source = Inl err"
  then show "GetDropboxFiles f source = ([], Some err)"
    by (simp add: GetDropboxFiles_def)
next
  fix ls
  assume a: "getFilesList f source = Inr ls
     \<and> (ls = [] \<or> (\<exists>l \<in> set ls. \<not> isl (fileListingToFileEntry f l)))"
  then have "ls = [] \<or> filter (\<lambda>l. \<not> isl (fileListingToFileEntry f l)) ls \<noteq> []"
    by (auto simp: filter_empty_conv)
  with a show "GetDropboxFiles f source =
      (map (projr \<circ> fileListingToFileEntry f)
         (filter (\<lambda>l. \<not> isl (fileListingToFileEntry f l)) ls), None)"
    by (auto simp: GetDropboxFiles_def rangeFileListings_acc Let_def)
next
  fix ls
  assume a: "getFilesList f source = Inr ls \<and> ls \<noteq> []
     \<and> (\<forall>l \<in> set ls. isl (fileListingToFileEntry f l))"
  then have "filter (\<lambda>l. \<not> isl (fileListingToFileEntry f l)) ls = []"
    by (auto simp: filter_empty_conv)
  with a show "GetDropboxFiles f source = ([], Some errNoFileEntries)"
    by (simp add: GetDropboxFiles_def rangeFileListings_acc Let_def)
qed

theorem GetDropboxFiles_fail_soft_witness:
  "GetDropboxFiles
     (newTestFileAccessor
        [\<lparr>filename = ''/path/to/foo'', created = Date 2023 4 5 6 54 32 0 UTC, isDirectory = False\<rparr>,
         \<lparr>filename = ''/path/to/bardir'', created = Date 2023 1 2 3 45 6 0 UTC, isDirectory = True\<rparr>,
         \<lparr>filename = ''/more/sub/dir/paths/to/baz'', created = Date 2023 5 6 7 12 34 0 UTC, isDirectory = False\<rparr>]
        True [False, True, False]) []
     = ([], Some (ErrorsNew ''some generic file listing error''))
   \<and> GetDropboxFiles
     (newTestFileAccessor
        [\<lparr>filename = ''/path/to/foo'', created = Date 2023 4 5 6 54 32 0 UTC, isDirectory = False\<rparr>,
         \<lparr>filename = ''/path/to/bardir'', created = Date 2023 1 2 3 45 6 0 UTC, isDirectory = True\<rparr>,
         \<lparr>filename = ''/more/sub/dir/paths/to/baz'', created = Date 2023 5 6 7 12 34 0 UTC, isDirectory = False\<rparr>]
        False [False, True, False]) []
     = ([\<lparr>filename = ''/path/to/foo'', created = Date 2023 4 5 6 54 32 0 UTC, isDirectory = False\<rparr>,
         \<lparr>filename = ''/more/sub/dir/paths/to/baz'', created = Date 2023 5 6 7 12 34 0 UTC, isDirectory = False\<rparr>],
        None)
   \<and> GetDropboxFiles
     (newTestFileAccessor
        [\<lparr>filename = ''/path/to/foo'', created = Date 2023 4 5 6 54 32 0 UTC, isDirectory = False\<rparr>,
         \<lparr>filename = ''/path/to/bardir'', created = Date 2023 1 2 3 45 6 0 UTC, isDirectory = True\<rparr>,
         \<lparr>filename = ''/more/sub/dir/paths/to/baz'', created = Date 2023 5 6 7 12 34 0 UTC, isDirectory = False\<rparr>]
        False [True, True, True]) []
     = ([], Some errNoFileEntries)"
proof -
  define files where "files =
    [\<lparr>filename = ''/path/to/foo'', created = Date 2023 4 5 6 54 32 0 UTC, isDirectory = False\<rparr>,
     \<lparr>filename = ''/path/to/bardir'', created = Date 2023 1 2 3 45 6 0 UTC, isDirectory = True\<rparr>,
     \<lparr>filename = ''/more/sub/dir/paths/to/baz'', created = Date 2023 5 6 7 12 34 0 UTC, isDirectory = False\<rparr>]"
  have 1: "GetDropboxFiles (newTestFileAccessor files True [False, True, False]) []
      = ([], Some (ErrorsNew ''some generic file listing error''))"
    using GetDropboxFiles_fail_soft[of "newTestFileAccessor files True [False, True, False]" "[]"]
    by (simp add: newTestFileAccessor_def)
  have 2: "GetDropboxFiles (newTestFileAccessor files False [False, True, False]) []
      = ([files ! 0, files ! 2], None)"
    using GetDropboxFiles_fail_soft[of "newTestFileAccessor files False [False, True, False]" "[]"]
    by (simp add: newTestFileAccessor_def files_def)
  have 3: "GetDropboxFiles (newTestFileAccessor files False [True, True, True]) []
      = ([], Some errNoFileEntries)"
    using GetDropboxFiles_fail_soft[of "newTestFileAccessor files False [True, True, True]" "[]"]
    by (simp add: newTestFileAccessor_def files_def)
  show ?thesis using 1 2 3 unfolding files_def by simp
qed

lemma rangeJobs_acc:
  "rangeJobs j jobs acc =
     acc @ concat (map (\<lambda>job. projr (getDropboxFilesFromJob j (readerJob job)))
                     (filter (\<lambda>job. \<not> isl (getDropboxFilesFromJob j (readerJob job))) jobs))"
proof (induction jobs arbitrary: acc)
  case Nil
  show ?case by simp
next
  case (Cons job jobs)
  show ?case
    by (cases "getDropboxFilesFromJob j (readerJob job)") (simp_all add: Cons.IH)
qed

text \<open>
  Claim C3. For \<open>GetActiveFiles\<close> with any job provider: a failure of
  \<open>queryJobsList\<close> is returned at once; a job whose extraction fails is skipped and the
  files of every other job are returned, flattened in order, with no error; and when
  the extraction fails for every job the result is the empty collection with no error.
\<close>

theorem GetActiveFiles_fail_soft:
  "(\<forall>err. queryJobsList j attributes constraints = Inl err
        \<longrightarrow> GetActiveFiles j attributes constraints = ([], Some err))
   \<and> (\<forall>jobs. queryJobsList j attributes constraints = Inr jobs
        \<longrightarrow> GetActiveFiles j attributes constraints =
              (concat (map (\<lambda>job. projr (getDropboxFilesFromJob j (readerJob job)))
                 (filter (\<lambda>job. \<not> isl (getDropboxFilesFromJob j (readerJob job))) jobs)), None))
   \<and> (\<forall>jobs. queryJobsList j attributes constraints = Inr jobs
          \<and> (\<forall>job \<in> set jobs. isl (getDropboxFilesFromJob j (readerJob job)))
        \<longrightarrow> GetActiveFiles j attributes constraints = ([], None))"
proof (intro conjI allI impI)
  fix err assume "queryJobsList j attributes constraints = Inl err"
  then show "GetActiveFiles j attributes constraints = ([], Some err)"
    by (simp add: GetActiveFiles_def)
next
  fix jobs assume "queryJobsList j attributes constraints = Inr jobs"
  then show "GetActiveFiles j attributes constraints =
      (concat (map (\<lambda>job. projr (getDropboxFilesFromJob j (readerJob job)))
         (filter (\<lambda>job. \<not> isl (getDropboxFilesFromJob j (readerJob job))) jobs)), None)"
    by (simp add: GetActiveFiles_def rangeJobs_acc)
next
  fix jobs
  assume a: "queryJobsList j attributes constraints = Inr jobs
     \<and> (\<forall>job \<in> set jobs. isl (getDropboxFilesFromJob j (readerJob job)))"
  then have "filter (\<lambda>job. \<not> isl (getDropboxFilesFromJob j (readerJob job))) jobs = []"
    by (auto simp: filter_empty_conv)
  with a show "GetActiveFiles j attributes constraints = ([], None)"
    by (simp add: GetActiveFiles_def rangeJobs_acc)
qed

theorem GetActiveFiles_fail_soft_witness:
  "GetActiveFiles (newTestJobLister True [(''/path/to/file2'', False)]) [] []
     = ([], Some (ErrorsNew ''this is an error''))
   \<and> GetActiveFiles (newTestJobLister False [(''/path/to/file2'', True), (''/path/to/file1,blahblah'', False)]) [] []
     = ([''/path/to/file1'', ''blahblah''], None)
   \<and> GetActiveFiles (newTestJobLister False [(''/path/to/file2'', True)]) [] []
     = ([], None)"
proof -
  have s1: "Split ''/path/to/file1,blahblah'' (CHR '','') = [''/path/to/file1'', ''blahblah'']"
    by code_simp
  have 1: "GetActiveFiles (newTestJobLister True [(''/path/to/file2'', False)]) [] []
      = ([], Some (ErrorsNew ''this is an error''))"
    using GetActiveFiles_fail_soft[of "newTestJobLister True [(''/path/to/file2'', False)]" "[]" "[]"]
    by (simp add: newTestJobLister_def)
  have 2: "GetActiveFiles (newTestJobLister False [(''/path/to/file2'', True), (''/path/to/file1,blahblah'', False)]) [] []
      = ([''/path/to/file1'', ''blahblah''], None)"
    using GetActiveFiles_fail_soft[of "newTestJobLister False [(''/path/to/file2'', True), (''/path/to/file1,blahblah'', False)]" "[]" "[]"]
    by (simp add: newTestJobLister_def readerJob_def bytes_NewReader_def s1)
  have 3: "GetActiveFiles (newTestJobLister False [(''/path/to/file2'', True)]) [] [] = ([], None)"
    using GetActiveFiles_fail_soft[of "newTestJobLister False [(''/path/to/file2'', True)]" "[]" "[]"]
    by (simp add: newTestJobLister_def readerJob_def bytes_NewReader_def)
  show ?thesis using 1 2 3 by simp
qed

section \<open>Properties of the active-file extractor\<close>

lemma Split_not_Nil: "Split s sep \<noteq> []"
  by (subst Split.simps) simp

lemma Split_length: "length (Split s sep) = Suc (count_list s sep)"
proof (induction s sep rule: Split.induct)
  case (1 s sep)
  show ?case
  proof (cases "sep \<in> set s")
    case False
    then show ?thesis by (subst Split.simps) (simp add: count_list_0_iff)
  next
    case True
    have s: "s = takeWhile (\<lambda>c. c \<noteq> sep) s @ dropWhile (\<lambda>c. c \<noteq> sep) s" by simp
    from True have ne: "dropWhile (\<lambda>c. c \<noteq> sep) s \<noteq> []" by (auto simp: dropWhile_eq_Nil_conv)
    then have hd: "hd (dropWhile (\<lambda>c. c \<noteq> sep) s) = sep" using hd_dropWhile[of "\<lambda>c. c \<noteq> sep" s] by simp
    from ne hd have d: "dropWhile (\<lambda>c. c \<noteq> sep) s = sep # tl (dropWhile (\<lambda>c. c \<noteq> sep) s)"
      by (cases "dropWhile (\<lambda>c. c \<noteq> sep) s") auto
    have "count_list (takeWhile (\<lambda>c. c \<noteq> sep) s) sep = 0"
      by (simp add: count_list_0_iff) (metis (mono_tags) set_takeWhileD)
    then have "count_list s sep = Suc (count_list (tl (dropWhile (\<lambda>c. c \<noteq> sep) s)) sep)"
      by (subst s, subst d) (simp del: takeWhile_dropWhile_id)
    with True 1 show ?thesis by (subst Split.simps) simp
  qed
qed

lemma Split_no_sep: "seg \<in> set (Split s sep) \<Longrightarrow> sep \<notin> set seg"
proof (induction s sep arbitrary: seg rule: Split.induct)
  case (1 s sep)
  show ?case
  proof (cases "sep \<in> set s")
    case False
    then show ?thesis using "1.prems" by (subst (asm) Split.simps) simp
  next
    case True
    then have "seg = takeWhile (\<lambda>c. c \<noteq> sep) s \<or> seg \<in> set (Split (tl (dropWhile (\<lambda>c. c \<noteq> sep) s)) sep)"
      using "1.prems" by (subst (asm) Split.simps) simp
    then show ?thesis
    proof
      assume "seg = takeWhile (\<lambda>c. c \<noteq> sep) s"
      then show ?thesis by (auto dest: set_takeWhileD)
    next
      assume "seg \<in> set (Split (tl (dropWhile (\<lambda>c. c \<noteq> sep) s)) sep)"
      then show ?thesis using "1.IH"[OF True] by simp
    qed
  qed
qed

text \<open>Joining the segments with the separator gives the string back.\<close>

lemma Split_join:
  "foldr (\<lambda>seg acc. seg @ sep # acc) (butlast (Split s sep)) (last (Split s sep)) = s"
proof (induction s sep rule: Split.induct)
  case (1 s sep)
  show ?case
  proof (cases "sep \<in> set s")
    case False
    then show ?thesis by (subst (1 2) Split.simps) simp
  next
    case True
    from True have ne: "dropWhile (\<lambda>c. c \<noteq> sep) s \<noteq> []" by (auto simp: dropWhile_eq_Nil_conv)
    then have hd: "hd (dropWhile (\<lambda>c. c \<noteq> sep) s) = sep" using hd_dropWhile[of "\<lambda>c. c \<noteq> sep" s] by simp
    from ne hd have d: "dropWhile (\<lambda>c. c \<noteq> sep) s = sep # tl (dropWhile (\<lambda>c. c \<noteq> sep) s)"
      by (cases "dropWhile (\<lambda>c. c \<noteq> sep) s") auto
    have s: "s = takeWhile (\<lambda>c. c \<noteq> sep) s @ sep # tl (dropWhile (\<lambda>c. c \<noteq> sep) s)"
      using d by (metis takeWhile_dropWhile_id)
    have "foldr (\<lambda>seg acc. seg @ sep # acc) (butlast (Split s sep)) (last (Split s sep))
        = takeWhile (\<lambda>c. c \<noteq> sep) s @ sep #
            foldr (\<lambda>seg acc. seg @ sep # acc) (butlast (Split (tl (dropWhile (\<lambda>c. c \<noteq> sep) s)) sep))
              (last (Split (tl (dropWhile (\<lambda>c. c \<noteq> sep) s)) sep))"
      using True by (subst (1 2) Split.simps) (simp add: Split_not_Nil)
    also have "\<dots> = takeWhile (\<lambda>c. c \<noteq> sep) s @ sep # tl (dropWhile (\<lambda>c. c \<noteq> sep) s)"
      using "1.IH"[OF True] by simp
    finally show ?thesis using s by simp
  qed
qed

lemma TrimLeftSpace_leading: "leadingSpace (TrimLeftSpace s) = None"
proof (induction s rule: TrimLeftSpace.induct)
  case (1 s)
  show ?case
  proof (cases "leadingSpace s")
    case None
    then show ?thesis by (subst TrimLeftSpace.simps) simp
  next
    case (Some w)
    then show ?thesis using 1 by (subst TrimLeftSpace.simps) simp
  qed
qed

lemma TrimRightSpace_trailing: "trailingSpace (TrimRightSpace s) = None"
proof (induction s rule: TrimRightSpace.induct)
  case (1 s)
  show ?case
  proof (cases "trailingSpace s")
    case None
    then show ?thesis by (subst TrimRightSpace.simps) simp
  next
    case (Some w)
    then show ?thesis using 1 by (subst TrimRightSpace.simps) simp
  qed
qed

lemma find_None_iff': "find P xs = None \<longleftrightarrow> (\<forall>x \<in> set xs. \<not> P x)"
  by (induction xs) auto

lemma leadingSpace_take: "leadingSpace s = None \<Longrightarrow> leadingSpace (take n s) = None"
  unfolding leadingSpace_def find_None_iff'
proof
  fix w assume a: "\<forall>w \<in> set spaceRunes. \<not> (length w \<le> length s \<and> take (length w) s = w)"
    and w: "w \<in> set spaceRunes"
  show "\<not> (length w \<le> length (take n s) \<and> take (length w) (take n s) = w)"
  proof
    assume h: "length w \<le> length (take n s) \<and> take (length w) (take n s) = w"
    then have "length w \<le> n" "length w \<le> length s" by simp_all
    then have "take (length w) s = w" using h by (simp add: min_def)
    then show False using a w \<open>length w \<le> length s\<close> by blast
  qed
qed

lemma TrimRightSpace_take: "\<exists>n. TrimRightSpace s = take n s"
proof (induction s rule: TrimRightSpace.induct)
  case (1 s)
  show ?case
  proof (cases "trailingSpace s")
    case None
    then have "TrimRightSpace s = take (length s) s" by (subst TrimRightSpace.simps) simp
    then show ?thesis by blast
  next
    case (Some w)
    then obtain n where "TrimRightSpace (take (length s - length w) s) = take n (take (length s - length w) s)"
      using 1 by blast
    then have "TrimRightSpace s = take (min n (length s - length w)) s"
      using Some by (subst TrimRightSpace.simps) (simp add: min.commute)
    then show ?thesis by blast
  qed
qed

lemma TrimSpace_trimmed: "leadingSpace (TrimSpace s) = None \<and> trailingSpace (TrimSpace s) = None"
proof -
  obtain n where "TrimSpace s = take n (TrimLeftSpace s)"
    unfolding TrimSpace_def using TrimRightSpace_take by blast
  then have "leadingSpace (TrimSpace s) = None"
    using leadingSpace_take[OF TrimLeftSpace_leading] by simp
  then show ?thesis by (simp add: TrimSpace_def TrimRightSpace_trailing)
qed

lemma rangeRawSlice_acc: "rangeRawSlice rawSlice acc = acc @ map TrimSpace rawSlice"
  by (induction rawSlice arbitrary: acc) simp_all

text \<open>
  Claim C5, as amended. For every job record, \<open>getDropboxFilesFromJob\<close> fails with
  \<open>ErrMissingJobDropboxFiles\<close> when the attribute \<open>PNFS_INPUT_FILES\<close> is absent; when
  the attribute is present and reading its value fails, it fails with the error of the
  read; otherwise it returns the value split on commas, each segment with the white space
  around it trimmed, and no segment is dropped: there is one segment more than there are
  commas.
\<close>

theorem getDropboxFilesFromJob_spec:
  "(j ''PNFS_INPUT_FILES'' = None
      \<longrightarrow> CondorSchedd_getDropboxFilesFromJob j = Inl ErrMissingJobDropboxFiles)
   \<and> (\<forall>val err. j ''PNFS_INPUT_FILES'' = Some val \<and> failure val = Some err
      \<longrightarrow> CondorSchedd_getDropboxFilesFromJob j = Inl err)
   \<and> (\<forall>val. j ''PNFS_INPUT_FILES'' = Some val \<and> failure val = None
      \<longrightarrow> CondorSchedd_getDropboxFilesFromJob j = Inr (map TrimSpace (Split (content val) (CHR '','')))
          \<and> length (map TrimSpace (Split (content val) (CHR '',''))) = Suc (count_list (content val) (CHR '',''))
          \<and> (\<forall>seg \<in> set (map TrimSpace (Split (content val) (CHR '',''))).
                leadingSpace seg = None \<and> trailingSpace seg = None))"
  by (auto simp: CondorSchedd_getDropboxFilesFromJob_def io_Copy_def Let_def rangeRawSlice_acc
      Split_length TrimSpace_trimmed)

theorem getDropboxFilesFromJob_spec_witness:
  "CondorSchedd_getDropboxFilesFromJob
     [''PNFS_INPUT_FILES'' \<mapsto> bytes_NewReader ''/path/to/myfile,/path/to/myfile2, /path/to/myfile3'']
     = Inr [''/path/to/myfile'', ''/path/to/myfile2'', ''/path/to/myfile3'']
   \<and> CondorSchedd_getDropboxFilesFromJob [''PNFS_INPUT_FILES'' \<mapsto> bytes_NewReader ''/a,, /b ,'']
     = Inr [''/a'', [], ''/b'', []]
   \<and> CondorSchedd_getDropboxFilesFromJob
     [''PNFS_INPUT_FILES_WRONG'' \<mapsto> bytes_NewReader ''/path/to/myfile,/path/to/myfile2, /path/to/myfile3'']
     = Inl ErrMissingJobDropboxFiles
   \<and> CondorSchedd_getDropboxFilesFromJob
     [''PNFS_INPUT_FILES'' \<mapsto> \<lparr>content = ''/a,'', failure = Some (ErrorsNew ''unexpected EOF'')\<rparr>]
     = Inl (ErrorsNew ''unexpected EOF'')"
proof -
  have t1: "map TrimSpace (Split ''/path/to/myfile,/path/to/myfile2, /path/to/myfile3'' (CHR '',''))
      = [''/path/to/myfile'', ''/path/to/myfile2'', ''/path/to/myfile3'']" by code_simp
  have t2: "map TrimSpace (Split ''/a,, /b ,'' (CHR '','')) = [''/a'', [], ''/b'', []]" by code_simp
  show ?thesis
    using getDropboxFilesFromJob_spec[of "[''PNFS_INPUT_FILES'' \<mapsto> bytes_NewReader ''/path/to/myfile,/path/to/myfile2, /path/to/myfile3'']"]
      getDropboxFilesFromJob_spec[of "[''PNFS_INPUT_FILES'' \<mapsto> bytes_NewReader ''/a,, /b ,'']"]
      getDropboxFilesFromJob_spec[of "[''PNFS_INPUT_FILES_WRONG'' \<mapsto> bytes_NewReader ''/path/to/myfile,/path/to/myfile2, /path/to/myfile3'']"]
      getDropboxFilesFromJob_spec[of "[''PNFS_INPUT_FILES'' \<mapsto> \<lparr>content = ''/a,'', failure = Some (ErrorsNew ''unexpected EOF'')\<rparr>]"]
    by (simp add: bytes_NewReader_def t1 t2)
qed

text \<open>
  The claim C5 as first stated has no place for a read that fails: here the attribute is
  present and the result is neither \<open>ErrMissingJobDropboxFiles\<close> nor the split value.
\<close>

theorem getDropboxFilesFromJob_read_failure:
  "[''PNFS_INPUT_FILES'' \<mapsto> \<lparr>content = ''/a,/b'', failure = Some (ErrorsNew ''unexpected EOF'')\<rparr>]
      ''PNFS_INPUT_FILES'' \<noteq> None
   \<and> CondorSchedd_getDropboxFilesFromJob
        [''PNFS_INPUT_FILES'' \<mapsto> \<lparr>content = ''/a,/b'', failure = Some (ErrorsNew ''unexpected EOF'')\<rparr>]
      = Inl (ErrorsNew ''unexpected EOF'')
   \<and> CondorSchedd_getDropboxFilesFromJob
        [''PNFS_INPUT_FILES'' \<mapsto> \<lparr>content = ''/a,/b'', failure = Some (ErrorsNew ''unexpected EOF'')\<rparr>]
      \<noteq> Inr (map TrimSpace (Split ''/a,/b'' (CHR '','')))"
  by (simp add: CondorSchedd_getDropboxFilesFromJob_def io_Copy_def)

section \<open>The calendar: days and years\<close>

lemma daysSinceEpoch_mod:
  "daysSinceEpoch year =
     146097 * ((year - 1) div 400) + 36524 * (((year - 1) mod 400) div 100)
     + 1461 * (((year - 1) mod 100) div 4) + 365 * ((year - 1) mod 4)"
proof -
  define y where "y = year - 1"
  have a: "y - 400 * (y div 400) = y mod 400" by (simp add: minus_mult_div_eq_mod)
  have b: "y mod 400 - 100 * (y mod 400 div 100) = y mod 100"
    by (simp add: minus_mult_div_eq_mod mod_mod_cancel)
  have c: "y mod 100 - 4 * (y mod 100 div 4) = y mod 4"
    by (simp add: minus_mult_div_eq_mod mod_mod_cancel)
  show ?thesis
    unfolding daysSinceEpoch_def Let_def y_def[symmetric] a b c by simp
qed

lemma div_step:
  fixes y k :: int
  assumes "0 < k"
  shows "y div k - (y - 1) div k = (if y mod k = 0 then 1 else 0)"
proof (cases "y mod k = 0")
  case True
  have "y - 1 = k * (y div k - 1) + (k - 1)"
    using True by (simp add: algebra_simps) (metis True add.right_neutral mult.commute mult_div_mod_eq)
  then have "(y - 1) div k = y div k - 1"
    using assms by (intro int_div_pos_eq[where r = "k - 1"]) auto
  with True show ?thesis by simp
next
  case False
  then have "0 < y mod k" using assms by (simp add: less_le)
  moreover have "y - 1 = k * (y div k) + (y mod k - 1)" by simp
  moreover have "y mod k < k" using assms by simp
  ultimately have "(y - 1) div k = y div k"
    by (intro int_div_pos_eq[where r = "y mod k - 1"]) auto
  with False show ?thesis by simp
qed

lemma div_nested:
  fixes y :: int
  assumes "0 < k" "0 < m"
  shows "y mod (k * m) div k = y div k - m * (y div (k * m))"
proof -
  have e1: "y = (k * m) * (y div (k * m)) + y mod (k * m)" by simp
  have e2: "y mod (k * m) = k * (y mod (k * m) div k) + y mod (k * m) mod k" by simp
  have "y = k * (m * (y div (k * m)) + y mod (k * m) div k) + y mod (k * m) mod k"
    using e1 e2 by (simp add: algebra_simps)
  moreover have "0 \<le> y mod (k * m) mod k" "y mod (k * m) mod k < k" using assms by simp_all
  ultimately have "y div k = m * (y div (k * m)) + y mod (k * m) div k"
    by (rule int_div_pos_eq)
  then show ?thesis by simp
qed

lemma daysSinceEpoch_closed:
  "daysSinceEpoch year = 365 * (year - 1) + (year - 1) div 4 - (year - 1) div 100 + (year - 1) div 400"
proof -
  define y where "y = year - 1"
  have m4: "y mod 4 = y - 4 * (y div 4)" by (simp add: minus_mult_div_eq_mod)
  have a: "y mod 400 div 100 = y div 100 - 4 * (y div 400)"
    using div_nested[of 100 4 y] by simp
  have b: "y mod 100 div 4 = y div 4 - 25 * (y div 100)"
    using div_nested[of 4 25 y] by simp
  show ?thesis
    unfolding daysSinceEpoch_mod y_def[symmetric] m4 a b by simp
qed

lemma daysSinceEpoch_Suc: "daysSinceEpoch (year + 1) = daysSinceEpoch year + yearLen year"
proof -
  have 4: "year div 4 - (year - 1) div 4 = (if year mod 4 = 0 then 1 else 0)" by (rule div_step) simp
  have 100: "year div 100 - (year - 1) div 100 = (if year mod 100 = 0 then 1 else 0)" by (rule div_step) simp
  have 400: "year div 400 - (year - 1) div 400 = (if year mod 400 = 0 then 1 else 0)" by (rule div_step) simp
  have m1: "year mod 100 = 0" if "year mod 400 = 0"
  proof -
    from that have "400 dvd year" by (simp add: mod_eq_0_iff_dvd)
    moreover have "(100::int) dvd 400" by simp
    ultimately have "100 dvd year" by (rule dvd_trans[rotated])
    then show ?thesis by (simp add: mod_eq_0_iff_dvd)
  qed
  have m2: "year mod 4 = 0" if "year mod 100 = 0"
  proof -
    from that have "100 dvd year" by (simp add: mod_eq_0_iff_dvd)
    moreover have "(4::int) dvd 100" by simp
    ultimately have "4 dvd year" by (rule dvd_trans[rotated])
    then show ?thesis by (simp add: mod_eq_0_iff_dvd)
  qed
  have "daysSinceEpoch (year + 1) - daysSinceEpoch year =
      365 + (year div 4 - (year - 1) div 4) - (year div 100 - (year - 1) div 100)
      + (year div 400 - (year - 1) div 400)"
    unfolding daysSinceEpoch_closed by simp
  also have "\<dots> = yearLen year"
    unfolding 4 100 400 yearLen_def isLeap_def
    using m1 m2
    by (cases "year mod 4 = 0"; cases "year mod 100 = 0"; cases "year mod 400 = 0") simp_all
  finally show ?thesis by simp
qed


lemma daysSinceEpoch_digits:
  fixes q b c e :: int
  assumes "0 \<le> b" "b \<le> 3" "0 \<le> c" "c \<le> 24" "0 \<le> e" "e \<le> 3"
  shows "daysSinceEpoch (400 * q + 100 * b + 4 * c + e + 1) =
           146097 * q + 36524 * b + 1461 * c + 365 * e"
proof -
  define Y where "Y = 400 * q + 100 * b + 4 * c + e"
  have "Y = 4 * (100 * q + 25 * b + c) + e" by (simp add: Y_def)
  then have d4: "Y div 4 = 100 * q + 25 * b + c"
    using assms by (intro int_div_pos_eq[where r = e]) auto
  have "Y = 100 * (4 * q + b) + (4 * c + e)" by (simp add: Y_def)
  then have d100: "Y div 100 = 4 * q + b"
    using assms by (intro int_div_pos_eq[where r = "4 * c + e"]) auto
  have "Y = 400 * q + (100 * b + 4 * c + e)" by (simp add: Y_def)
  then have d400: "Y div 400 = q"
    using assms by (intro int_div_pos_eq[where r = "100 * b + 4 * c + e"]) auto
  have "daysSinceEpoch (Y + 1) = 365 * Y + Y div 4 - Y div 100 + Y div 400"
    by (simp add: daysSinceEpoch_closed)
  also have "\<dots> = 146097 * q + 36524 * b + 1461 * c + 365 * e"
    unfolding d4 d100 d400 by (simp add: Y_def)
  finally show ?thesis by (simp add: Y_def)
qed

lemma div_bounds:
  fixes x k :: int
  assumes "0 < k"
  shows "k * (x div k) \<le> x" and "x < k * (x div k) + k"
proof -
  have "x = k * (x div k) + x mod k" by simp
  moreover have "0 \<le> x mod k" "x mod k < k" using assms by simp_all
  ultimately show "k * (x div k) \<le> x" and "x < k * (x div k) + k" by linarith+
qed

lemma isLeap_digits:
  fixes q b c e :: int
  assumes "0 \<le> b" "b \<le> 3" "0 \<le> c" "c \<le> 24" "0 \<le> e" "e \<le> 3"
  shows "isLeap (400 * q + 100 * b + 4 * c + e + 1) \<longleftrightarrow> e = 3 \<and> (c \<noteq> 24 \<or> b = 3)"
proof -
  define y where "y = 400 * q + 100 * b + 4 * c + e + 1"
  have m4: "y mod 4 = (e + 1) mod 4"
  proof -
    have "y = (e + 1) + (100 * q + 25 * b + c) * 4" by (simp add: y_def)
    then show ?thesis by (metis mod_mult_self1)
  qed
  have m100: "y mod 100 = (4 * c + e + 1) mod 100"
  proof -
    have "y = (4 * c + e + 1) + (4 * q + b) * 100" by (simp add: y_def)
    then show ?thesis by (metis mod_mult_self1)
  qed
  have m400: "y mod 400 = (100 * b + 4 * c + e + 1) mod 400"
  proof -
    have "y = (100 * b + 4 * c + e + 1) + q * 400" by (simp add: y_def)
    then show ?thesis by (metis mod_mult_self1)
  qed
  have a4: "(e + 1) mod 4 = 0 \<longleftrightarrow> e = 3"
  proof -
    consider "e = 0" | "e = 1" | "e = 2" | "e = 3" using assms by arith
    then show ?thesis by cases simp_all
  qed
  have full: "x = k" if "0 < x" "x \<le> k" "x mod k = 0" for x k :: int
  proof -
    have "k dvd x" using that(3) by (simp add: mod_eq_0_iff_dvd)
    then obtain j where j: "x = k * j" by (auto simp: dvd_def)
    have "0 < k" using that by simp
    have "0 < j" using that(1) \<open>0 < k\<close> unfolding j by (simp add: zero_less_mult_iff)
    moreover have "j \<le> 1"
    proof (rule ccontr)
      assume "\<not> j \<le> 1"
      then have "2 \<le> j" by simp
      then have "k * 2 \<le> k * j" using \<open>0 < k\<close> by (intro mult_left_mono) simp_all
      then show False using that(2) \<open>0 < k\<close> unfolding j by simp
    qed
    ultimately have "j = 1" by simp
    then show ?thesis using j by simp
  qed
  have a100: "(4 * c + e + 1) mod 100 = 0 \<longleftrightarrow> c = 24 \<and> e = 3"
  proof
    assume h: "(4 * c + e + 1) mod 100 = 0"
    have "0 < 4 * c + e + 1" "4 * c + e + 1 \<le> 100" using assms by auto
    then have "4 * c + e + 1 = 100" using h by (rule full)
    then show "c = 24 \<and> e = 3" using assms by arith
  next
    assume "c = 24 \<and> e = 3" then show "(4 * c + e + 1) mod 100 = 0" by simp
  qed
  have a400: "(100 * b + 4 * c + e + 1) mod 400 = 0 \<longleftrightarrow> b = 3 \<and> c = 24 \<and> e = 3"
  proof
    assume h: "(100 * b + 4 * c + e + 1) mod 400 = 0"
    have "0 < 100 * b + 4 * c + e + 1" "100 * b + 4 * c + e + 1 \<le> 400" using assms by auto
    then have "100 * b + 4 * c + e + 1 = 400" using h by (rule full)
    then show "b = 3 \<and> c = 24 \<and> e = 3" using assms by arith
  next
    assume "b = 3 \<and> c = 24 \<and> e = 3" then show "(100 * b + 4 * c + e + 1) mod 400 = 0" by simp
  qed
  show ?thesis
    unfolding isLeap_def y_def[symmetric] m4 m100 m400 a4 a100 a400 by auto
qed


lemma yearOfDays_sound:
  assumes "yearOfDays d = (y, yd)"
  shows "daysSinceEpoch y + yd = d \<and> 0 \<le> yd \<and> yd < yearLen y"
proof -
  define n1 where "n1 = d div 146097"
  define d1 where "d1 = d - 146097 * n1"
  define n2 where "n2 = d1 div 36524"
  define b where "b = n2 - n2 div 4"
  define d2 where "d2 = d1 - 36524 * b"
  define c where "c = d2 div 1461"
  define d3 where "d3 = d2 - 1461 * c"
  define n4 where "n4 = d3 div 365"
  define e where "e = n4 - n4 div 4"
  define d4 where "d4 = d3 - 365 * e"
  have res: "y = 400 * n1 + 100 * b + 4 * c + e + 1" "yd = d4"
    using assms
    unfolding yearOfDays_def Let_def n1_def[symmetric] d1_def[symmetric] n2_def[symmetric]
      b_def[symmetric] d2_def[symmetric] c_def[symmetric] d3_def[symmetric] n4_def[symmetric]
      e_def[symmetric] d4_def[symmetric]
    by simp_all
  have d1: "0 \<le> d1" "d1 < 146097"
    using div_bounds[of 146097 d] by (simp_all add: d1_def n1_def)
  have n2: "36524 * n2 \<le> d1" "d1 < 36524 * n2 + 36524"
    using div_bounds[of 36524 d1] by (simp_all add: n2_def)
  then have n2r: "0 \<le> n2" "n2 \<le> 4" using d1 by linarith+
  have bv: "b = (if n2 = 4 then 3 else n2)"
  proof -
    consider "n2 = 0" | "n2 = 1" | "n2 = 2" | "n2 = 3" | "n2 = 4" using n2r by linarith
    then show ?thesis by cases (simp_all add: b_def)
  qed
  have br: "0 \<le> b" "b \<le> 3" using n2r by (simp_all add: bv)
  have d2: "0 \<le> d2" "d2 \<le> 36524" "d2 = 36524 \<longrightarrow> b = 3"
    using n2 d1 n2r by (auto simp: d2_def bv)
  have c: "1461 * c \<le> d2" "d2 < 1461 * c + 1461"
    using div_bounds[of 1461 d2] by (simp_all add: c_def)
  then have cr: "0 \<le> c" "c \<le> 24" using d2 by linarith+
  have d3: "0 \<le> d3" "d3 < 1461" using c by (simp_all add: d3_def)
  have n4: "365 * n4 \<le> d3" "d3 < 365 * n4 + 365"
    using div_bounds[of 365 d3] by (simp_all add: n4_def)
  then have n4r: "0 \<le> n4" "n4 \<le> 4" using d3 by linarith+
  have ev: "e = (if n4 = 4 then 3 else n4)"
  proof -
    consider "n4 = 0" | "n4 = 1" | "n4 = 2" | "n4 = 3" | "n4 = 4" using n4r by linarith
    then show ?thesis by cases (simp_all add: e_def)
  qed
  have er: "0 \<le> e" "e \<le> 3" using n4r by (simp_all add: ev)
  have d4: "0 \<le> d4" "d4 \<le> 365" "d4 = 365 \<longrightarrow> e = 3 \<and> d3 = 1460"
    using n4 d3 n4r by (auto simp: d4_def ev)
  have D: "daysSinceEpoch y = 146097 * n1 + 36524 * b + 1461 * c + 365 * e"
    unfolding res by (rule daysSinceEpoch_digits[OF br cr er])
  have sum: "daysSinceEpoch y + yd = d"
    unfolding D res(2) by (simp add: d4_def d3_def d2_def d1_def)
  have leap: "isLeap y \<longleftrightarrow> e = 3 \<and> (c \<noteq> 24 \<or> b = 3)"
    unfolding res by (rule isLeap_digits[OF br cr er])
  have "yd < yearLen y"
  proof (cases "d4 = 365")
    case False
    then show ?thesis using d4 by (simp add: res yearLen_def)
  next
    case True
    then have e3: "e = 3" and "d3 = 1460" using d4 by auto
    have "c = 24 \<longrightarrow> b = 3"
    proof
      assume "c = 24"
      then have "d2 = 36524" using \<open>d3 = 1460\<close> by (simp add: d3_def)
      then show "b = 3" using d2 by simp
    qed
    then have "isLeap y" using leap e3 by auto
    then show ?thesis using d4 by (simp add: res yearLen_def)
  qed
  then show ?thesis using sum d4 by (simp add: res)
qed

lemma daysSinceEpoch_mono: "y \<le> y' \<Longrightarrow> daysSinceEpoch y \<le> daysSinceEpoch y'"
proof (induction y' rule: int_ge_induct)
  case base
  show ?case by simp
next
  case (step i)
  have "daysSinceEpoch (i + 1) = daysSinceEpoch i + yearLen i" by (rule daysSinceEpoch_Suc)
  moreover have "0 \<le> yearLen i" by (simp add: yearLen_def)
  ultimately show ?case using step by simp
qed

lemma yearOfDays_unique:
  assumes "daysSinceEpoch y \<le> d" "d < daysSinceEpoch y + yearLen y"
  shows "yearOfDays d = (y, d - daysSinceEpoch y)"
proof -
  obtain y' yd' where r: "yearOfDays d = (y', yd')" by (cases "yearOfDays d")
  from yearOfDays_sound[OF r]
  have s: "daysSinceEpoch y' + yd' = d" "0 \<le> yd'" "yd' < yearLen y'" by simp_all
  have "\<not> y' < y"
  proof
    assume "y' < y"
    then have "daysSinceEpoch (y' + 1) \<le> daysSinceEpoch y" by (intro daysSinceEpoch_mono) simp
    then show False using s assms by (simp add: daysSinceEpoch_Suc)
  qed
  moreover have "\<not> y < y'"
  proof
    assume "y < y'"
    then have "daysSinceEpoch (y + 1) \<le> daysSinceEpoch y'" by (intro daysSinceEpoch_mono) simp
    then show False using s assms by (simp add: daysSinceEpoch_Suc)
  qed
  ultimately have "y' = y" by simp
  then show ?thesis using r s by simp
qed


lemma month_cases:
  fixes m :: int
  assumes "1 \<le> m" "m \<le> 12"
  shows "m = 1 \<or> m = 2 \<or> m = 3 \<or> m = 4 \<or> m = 5 \<or> m = 6 \<or> m = 7 \<or> m = 8
         \<or> m = 9 \<or> m = 10 \<or> m = 11 \<or> m = 12"
  using assms by presburger

lemma monthOfDay_correct:
  assumes "1 \<le> m" "m \<le> 12" "daysBefore ! nat (m - 1) \<le> x" "x < daysBefore ! nat m"
  shows "monthOfDay x = (m, x - daysBefore ! nat (m - 1) + 1)"
proof -
  define q where "q = x div 31"
  have qb: "31 * q \<le> x" "x < 31 * q + 31" using div_bounds[of 31 x] by (simp_all add: q_def)
  consider "m = 1" | "m = 2" | "m = 3" | "m = 4" | "m = 5" | "m = 6" | "m = 7" | "m = 8"
    | "m = 9" | "m = 10" | "m = 11" | "m = 12" using month_cases[OF assms(1,2)] by blast
  then show ?thesis
  proof cases
    case 1
    then have "q = 0" using assms qb by (simp add: daysBefore_def)
    then show ?thesis using 1 assms by (auto simp: monthOfDay_def daysBefore_def q_def[symmetric] Let_def)
  next
    case 2
    then have "q = 1" using assms qb by (simp add: daysBefore_def)
    then show ?thesis using 2 assms by (auto simp: monthOfDay_def daysBefore_def q_def[symmetric] Let_def)
  next
    case 3
    then have "q = 1 \<or> q = 2" using assms qb by (simp add: daysBefore_def) arith
    then show ?thesis using 3 assms by (auto simp: monthOfDay_def daysBefore_def q_def[symmetric] Let_def)
  next
    case 4
    then have "q = 2 \<or> q = 3" using assms qb by (simp add: daysBefore_def) arith
    then show ?thesis using 4 assms by (auto simp: monthOfDay_def daysBefore_def q_def[symmetric] Let_def)
  next
    case 5
    then have "q = 3 \<or> q = 4" using assms qb by (simp add: daysBefore_def) arith
    then show ?thesis using 5 assms by (auto simp: monthOfDay_def daysBefore_def q_def[symmetric] Let_def)
  next
    case 6
    then have "q = 4 \<or> q = 5" using assms qb by (simp add: daysBefore_def) arith
    then show ?thesis using 6 assms by (auto simp: monthOfDay_def daysBefore_def q_def[symmetric] Let_def)
  next
    case 7
    then have "q = 5 \<or> q = 6" using assms qb by (simp add: daysBefore_def) arith
    then show ?thesis using 7 assms by (auto simp: monthOfDay_def daysBefore_def q_def[symmetric] Let_def)
  next
    case 8
    then have "q = 6 \<or> q = 7" using assms qb by (simp add: daysBefore_def) arith
    then show ?thesis using 8 assms by (auto simp: monthOfDay_def daysBefore_def q_def[symmetric] Let_def)
  next
    case 9
    then have "q = 7 \<or> q = 8" using assms qb by (simp add: daysBefore_def) arith
    then show ?thesis using 9 assms by (auto simp: monthOfDay_def daysBefore_def q_def[symmetric] Let_def)
  next
    case 10
    then have "q = 8 \<or> q = 9" using assms qb by (simp add: daysBefore_def) arith
    then show ?thesis using 10 assms by (auto simp: monthOfDay_def daysBefore_def q_def[symmetric] Let_def)
  next
    case 11
    then have "q = 9 \<or> q = 10" using assms qb by (simp add: daysBefore_def) arith
    then show ?thesis using 11 assms by (auto simp: monthOfDay_def daysBefore_def q_def[symmetric] Let_def)
  next
    case 12
    then have "q = 10 \<or> q = 11" using assms qb by (simp add: daysBefore_def) arith
    then show ?thesis using 12 assms by (auto simp: monthOfDay_def daysBefore_def q_def[symmetric] Let_def)
  qed
qed

section \<open>The calendar: dates made and read back\<close>

lemma norm_id: "0 \<le> lo \<Longrightarrow> lo < base \<Longrightarrow> norm hi lo base = (hi, lo)"
  by (simp add: norm_def)

lemma offsetAt_UTC: "offsetAt UTC s = 0"
  by (simp add: offsetAt_def UTC_def)

lemma dateOffset_UTC: "dateOffset UTC s = 0"
  by (simp add: dateOffset_def UTC_def)

lemma offsetAt_FixedZone: "offsetAt (FixedZone off) s = off"
  by (simp add: offsetAt_def FixedZone_def)

lemma dateOffset_FixedZone: "dateOffset (FixedZone off) s = off"
  by (simp add: dateOffset_def FixedZone_def offsetAt_def)

text \<open>The offset that \<open>Date\<close> subtracts is in force at one of the instants it looks at.\<close>

lemma dateOffset_cases:
  "dateOffset loc u = offsetAt loc u \<or> dateOffset loc u = offsetAt loc (u - offsetAt loc u)"
  by (auto simp: dateOffset_def offsetAt_def split: prod.splits)

lemma dateOffset_settled: "settled loc off u \<Longrightarrow> dateOffset loc u = off"
  using dateOffset_cases[of loc u] by (auto simp: settled_def)

lemma Time_abs_offsetAt: "Time_abs t loc = wall_sec t + offsetAt loc (unixSec t)"
  by (simp add: Time_abs_def offsetAt_def unixSec_def internalToUnix_def Let_def split: prod.splits)

text \<open>What \<open>Date\<close> does once the wall clock reading \<open>A\<close> is known.\<close>

lemma Date_tail:
  "(case Location_lookup loc (A + internalToUnix) of (offset, zstart, zend) \<Rightarrow>
      unixTime (if offset \<noteq> 0
                then A + internalToUnix -
                     (if A + internalToUnix - offset < zstart \<or> zend \<le> A + internalToUnix - offset
                      then (case Location_lookup loc (A + internalToUnix - offset) of (offset, zstart, zend) \<Rightarrow> offset)
                      else offset)
                else A + internalToUnix) ns)
   = \<lparr>wall_sec = A - dateOffset loc (A - unixToInternal), wall_nsec = ns\<rparr>"
  by (auto simp: dateOffset_def offsetAt_def unixTime_def internalToUnix_def split: prod.splits)

lemma Date_abs:
  assumes "1 \<le> m" "m \<le> 12" "validClock h mi s" "0 \<le> ns" "ns < 1000000000"
  shows "Date y m d h mi s ns loc =
           \<lparr>wall_sec = civil y m d h mi s - dateOffset loc (civil y m d h mi s - unixToInternal),
            wall_nsec = ns\<rparr>"
proof -
  have n1: "norm y (m - 1) 12 = (y, m - 1)" using assms by (intro norm_id) auto
  have n2: "norm s ns 1000000000 = (s, ns)" using assms by (intro norm_id) auto
  have n3: "norm mi s 60 = (mi, s)" using assms by (intro norm_id) (auto simp: validClock_def)
  have n4: "norm h mi 60 = (h, mi)" using assms by (intro norm_id) (auto simp: validClock_def)
  have n5: "norm d h 24 = (d, h)" using assms by (intro norm_id) (auto simp: validClock_def)
  have c: "((if isLeap y \<and> 3 \<le> m - 1 + 1
             then daysSinceEpoch y + daysBefore ! nat (m - 1 + 1 - 1) + 1
             else daysSinceEpoch y + daysBefore ! nat (m - 1 + 1 - 1)) + (d - 1)) * 86400
           + (h * 3600 + mi * 60 + s) = civil y m d h mi s"
    by (simp add: civil_def ydayOf_def)
  show ?thesis
    unfolding Date_def Let_def n1 n2 n3 n4 n5 prod.case c by (rule Date_tail)
qed

lemma wallUnix_civil:
  assumes "1 \<le> m" "m \<le> 12" "validClock h mi s"
  shows "wallUnix y m d h mi s = civil y m d h mi s - unixToInternal"
  unfolding wallUnix_def using assms
  by (simp add: Date_abs dateOffset_UTC unixSec_def internalToUnix_def)

lemma absDate_split:
  "absDate a =
     (case yearOfDays (a div 86400) of (year, yday) \<Rightarrow>
        if isLeap year \<and> yday = 59 then (year, 2, 29, yday)
        else (case monthOfDay (if isLeap year \<and> yday > 59 then yday - 1 else yday) of
                (m, dd) \<Rightarrow> (year, m, dd, yday)))"
  by (simp add: absDate_def Let_def split: prod.splits)

lemma daysBefore_mono:
  assumes "1 \<le> m" "m \<le> 12"
  shows "daysBefore ! nat m - daysBefore ! nat (m - 1) \<le> 31"
    and "28 \<le> daysBefore ! nat m - daysBefore ! nat (m - 1)"
    and "0 \<le> daysBefore ! nat (m - 1)" and "daysBefore ! nat m \<le> 365"
    and "m \<le> 2 \<Longrightarrow> daysBefore ! nat m \<le> 59" and "3 \<le> m \<Longrightarrow> 59 \<le> daysBefore ! nat (m - 1)"
  using month_cases[OF assms] by (auto simp: daysBefore_def)

lemma ydayOf_bounds:
  assumes "1 \<le> m" "m \<le> 12" "1 \<le> d" "d \<le> 31"
  shows "0 \<le> ydayOf y m d" and "ydayOf y m d < yearLen y"
proof -
  show "0 \<le> ydayOf y m d" using daysBefore_mono(3)[OF assms(1,2)] assms by (simp add: ydayOf_def)
  have "daysBefore ! nat (m - 1) + 31 \<le> 365"
    using month_cases[OF assms(1,2)] by (auto simp: daysBefore_def)
  moreover have "m \<le> 2 \<Longrightarrow> daysBefore ! nat (m - 1) + 31 \<le> 62"
    using month_cases[OF assms(1,2)] by (auto simp: daysBefore_def)
  ultimately show "ydayOf y m d < yearLen y" using assms by (auto simp: ydayOf_def yearLen_def)
qed

lemma div_mult_add:
  fixes k :: int
  assumes "0 \<le> r" "r < k"
  shows "(q * k + r) div k = q" and "(q * k + r) mod k = r"
proof -
  have e: "q * k + r = k * q + r" by simp
  show "(q * k + r) div k = q" using e assms by (rule int_div_pos_eq)
  show "(q * k + r) mod k = r" using e assms by (rule int_mod_pos_eq)
qed

lemma absDate_valid:
  assumes m: "1 \<le> m" "m \<le> 12" and d: "1 \<le> d" "d \<le> daysIn m y" and s: "0 \<le> secs" "secs < 86400"
  shows "absDate ((daysSinceEpoch y + ydayOf y m d) * 86400 + secs) = (y, m, d, ydayOf y m d)"
proof -
  have d31: "d \<le> 31" using d daysBefore_mono(1)[OF m] by (auto simp: daysIn_def split: if_splits)
  have yb: "0 \<le> ydayOf y m d" "ydayOf y m d < yearLen y" using ydayOf_bounds[OF m d(1) d31] by simp_all
  have dv: "((daysSinceEpoch y + ydayOf y m d) * 86400 + secs) div 86400 = daysSinceEpoch y + ydayOf y m d"
    using s by (rule div_mult_add)
  have yo: "yearOfDays (daysSinceEpoch y + ydayOf y m d) = (y, ydayOf y m d)"
    using yearOfDays_unique[of y "daysSinceEpoch y + ydayOf y m d"] yb by simp
  show ?thesis
  proof (cases "isLeap y")
    case False
    then have din: "d \<le> daysBefore ! nat m - daysBefore ! nat (m - 1)" using d by (simp add: daysIn_def)
    have yd: "ydayOf y m d = daysBefore ! nat (m - 1) + (d - 1)" using False by (simp add: ydayOf_def)
    have "monthOfDay (ydayOf y m d) = (m, ydayOf y m d - daysBefore ! nat (m - 1) + 1)"
      using m d din by (intro monthOfDay_correct) (simp_all add: yd)
    then show ?thesis using False unfolding absDate_split dv yo by (simp add: yd)
  next
    case True
    show ?thesis
    proof (cases "m \<le> 2")
      case le: True
      show ?thesis
      proof (cases "m = 2 \<and> d = 29")
        case True
        then have "ydayOf y m d = 59" by (simp add: ydayOf_def daysBefore_def)
        then show ?thesis using \<open>isLeap y\<close> True unfolding absDate_split dv yo by simp
      next
        case False
        have yd: "ydayOf y m d = daysBefore ! nat (m - 1) + (d - 1)" using le by (simp add: ydayOf_def)
        have din: "d \<le> daysBefore ! nat m - daysBefore ! nat (m - 1)"
          using d False le m month_cases[OF m] by (auto simp: daysIn_def daysBefore_def split: if_splits)
        then have lt59: "ydayOf y m d < 59" using daysBefore_mono(5)[OF m le] by (simp add: yd)
        have "monthOfDay (ydayOf y m d) = (m, ydayOf y m d - daysBefore ! nat (m - 1) + 1)"
          using m d din by (intro monthOfDay_correct) (simp_all add: yd)
        then show ?thesis using lt59 unfolding absDate_split dv yo by (simp add: yd)
      qed
    next
      case False
      then have ge3: "3 \<le> m" by simp
      have yd: "ydayOf y m d = daysBefore ! nat (m - 1) + d" using True ge3 by (simp add: ydayOf_def)
      have din: "d \<le> daysBefore ! nat m - daysBefore ! nat (m - 1)" using d ge3 by (simp add: daysIn_def)
      have gt59: "ydayOf y m d > 59" using daysBefore_mono(6)[OF m ge3] d by (simp add: yd)
      have "monthOfDay (ydayOf y m d - 1) = (m, (ydayOf y m d - 1) - daysBefore ! nat (m - 1) + 1)"
        using m d din by (intro monthOfDay_correct) (simp_all add: yd)
      then show ?thesis using gt59 True unfolding absDate_split dv yo by (simp add: yd)
    qed
  qed
qed


lemma Clock_abs:
  assumes "validClock h mi s" and w: "Time_abs t loc = days * 86400 + (h * 3600 + mi * 60 + s)"
  shows "Clock t loc = (h, mi, s)"
proof -
  define S where "S = h * 3600 + mi * 60 + s"
  have r: "0 \<le> S" "S < 86400"
    using assms by (auto simp: validClock_def S_def)
  have m: "Time_abs t loc mod 86400 = S"
    unfolding w S_def[symmetric] using r by (rule div_mult_add)
  have "0 \<le> mi * 60 + s" "mi * 60 + s < 3600" using assms by (auto simp: validClock_def)
  then have "(h * 3600 + (mi * 60 + s)) div 3600 = h" by (rule div_mult_add)
  then have h: "S div 3600 = h" by (simp add: S_def add.assoc)
  have "0 \<le> s" "s < 60" using assms by (auto simp: validClock_def)
  then have mi: "(mi * 60 + s) div 60 = mi" by (rule div_mult_add)
  have r1: "S - h * 3600 = mi * 60 + s" by (simp add: S_def)
  have r2: "mi * 60 + s - mi * 60 = s" by simp
  show ?thesis
    unfolding Clock_def Let_def m h r1 mi r2 ..
qed

lemma secs_bounds:
  assumes "validClock h mi s"
  shows "0 \<le> h * 3600 + mi * 60 + s" and "h * 3600 + mi * 60 + s < 86400"
  using assms by (auto simp: validClock_def)

text \<open>
  A date made from fields in their usual ranges, at a wall clock reading that is settled
  in the zone: the instant is the reading less the offset, and it reads back as it was
  made.
\<close>

lemma Time_abs_Date:
  assumes "1 \<le> m" "m \<le> 12" "validClock h mi s" "0 \<le> ns" "ns < 1000000000"
    and "settled loc off (wallUnix y m d h mi s)"
  shows "Time_abs (Date y m d h mi s ns loc) loc = civil y m d h mi s"
    and "unixSec (Date y m d h mi s ns loc) = wallUnix y m d h mi s - off"
proof -
  have w: "wallUnix y m d h mi s = civil y m d h mi s - unixToInternal"
    using assms(1-3) by (rule wallUnix_civil)
  have o: "dateOffset loc (civil y m d h mi s - unixToInternal) = off"
    using assms(6) unfolding w by (rule dateOffset_settled)
  have D: "Date y m d h mi s ns loc = \<lparr>wall_sec = civil y m d h mi s - off, wall_nsec = ns\<rparr>"
    using assms(1-5) o by (simp add: Date_abs)
  show u: "unixSec (Date y m d h mi s ns loc) = wallUnix y m d h mi s - off"
    unfolding D w by (simp add: unixSec_def internalToUnix_def)
  have "offsetAt loc (wallUnix y m d h mi s - off) = off" using assms(6) by (simp add: settled_def)
  then show "Time_abs (Date y m d h mi s ns loc) loc = civil y m d h mi s"
    unfolding Time_abs_offsetAt u unfolding D by simp
qed

lemma Time_Date_Date:
  assumes "1 \<le> m" "m \<le> 12" "1 \<le> d" "d \<le> daysIn m y" "validClock h mi s"
    "0 \<le> ns" "ns < 1000000000" and "settled loc off (wallUnix y m d h mi s)"
  shows "Time_Date (Date y m d h mi s ns loc) loc = (y, m, d)"
    and "Year (Date y m d h mi s ns loc) loc = y"
    and "Clock (Date y m d h mi s ns loc) loc = (h, mi, s)"
    and "wall_nsec (Date y m d h mi s ns loc) = ns"
proof -
  define t where "t = Date y m d h mi s ns loc"
  have w: "Time_abs t loc = (daysSinceEpoch y + ydayOf y m d) * 86400 + (h * 3600 + mi * 60 + s)"
    unfolding t_def using Time_abs_Date(1)[OF assms(1,2,5,6,7,8)] by (simp add: civil_def)
  have A: "absDate (Time_abs t loc) = (y, m, d, ydayOf y m d)"
    unfolding w using assms secs_bounds[OF assms(5)] by (intro absDate_valid) simp_all
  show "Time_Date (Date y m d h mi s ns loc) loc = (y, m, d)"
    unfolding t_def[symmetric] Time_Date_def A by simp
  show "Year (Date y m d h mi s ns loc) loc = y"
    unfolding t_def[symmetric] Year_def A by simp
  show "Clock (Date y m d h mi s ns loc) loc = (h, mi, s)"
    unfolding t_def[symmetric] using assms(5) w by (rule Clock_abs)
  show "wall_nsec (Date y m d h mi s ns loc) = ns"
    using assms by (simp add: Date_abs)
qed

text \<open>February 29 of a year that is not a leap year is March 1.\<close>

lemma civil_Feb_29: "\<not> isLeap y \<Longrightarrow> civil y 2 29 h mi s = civil y 3 1 h mi s"
  by (simp add: civil_def ydayOf_def daysBefore_def)

lemma Date_Feb_29:
  assumes "\<not> isLeap y" "validClock h mi s" "0 \<le> ns" "ns < 1000000000"
  shows "Date y 2 29 h mi s ns loc = Date y 3 1 h mi s ns loc"
  using assms by (simp add: Date_abs civil_Feb_29)

lemma wallUnix_Feb_29:
  assumes "\<not> isLeap y" "validClock h mi s"
  shows "wallUnix y 2 29 h mi s = wallUnix y 3 1 h mi s"
  using assms by (simp add: wallUnix_civil civil_Feb_29)

lemma daysIn_29:
  assumes "1 \<le> m" "m \<le> 12" "1 \<le> d" "d \<le> daysIn m y0" "isLeap y0"
  shows "d \<le> daysIn m y \<or> (m = 2 \<and> d = 29 \<and> \<not> isLeap y)"
  using assms month_cases[OF assms(1,2)] by (auto simp: daysIn_def daysBefore_def split: if_splits)

text \<open>
  \<open>AddDate\<close> of whole years on a date made from fields in their usual ranges, at a
  settled wall clock reading: the same fields in the other year.
\<close>

lemma AddDate_years:
  assumes "1 \<le> m" "m \<le> 12" "1 \<le> d" "d \<le> daysIn m y" "validClock h mi s"
    "0 \<le> ns" "ns < 1000000000" and "settled loc off (wallUnix y m d h mi s)"
  shows "AddDate (Date y m d h mi s ns loc) k 0 0 loc = Date (y + k) m d h mi s ns loc"
  unfolding AddDate_def using Time_Date_Date[OF assms] by simp

text \<open>The year of an instant begins no later than the instant.\<close>

lemma Year_begins:
  "daysSinceEpoch (Year t loc) * 86400 \<le> Time_abs t loc"
proof -
  obtain y yd where r: "yearOfDays (Time_abs t loc div 86400) = (y, yd)"
    by (cases "yearOfDays (Time_abs t loc div 86400)")
  have y: "Year t loc = y"
    unfolding Year_def absDate_def Let_def r by (simp split: prod.splits)
  from yearOfDays_sound[OF r] have "daysSinceEpoch y \<le> Time_abs t loc div 86400" by simp
  then have "daysSinceEpoch y * 86400 \<le> (Time_abs t loc div 86400) * 86400" by simp
  also have "\<dots> \<le> Time_abs t loc" using div_bounds(1)[of 86400 "Time_abs t loc"] by simp
  finally show ?thesis unfolding y .
qed

text \<open>A date with a month from 1 to 12 and a day from 1 to 31 lies before the next year.\<close>

lemma civil_before_next_year:
  assumes "1 \<le> m" "m \<le> 12" "1 \<le> d" "d \<le> 31" "validClock h mi s"
  shows "civil y m d h mi s < daysSinceEpoch (y + 1) * 86400"
proof -
  have yb: "ydayOf y m d < yearLen y" using assms by (intro ydayOf_bounds) simp_all
  have "civil y m d h mi s < (daysSinceEpoch y + ydayOf y m d) * 86400 + 86400"
    unfolding civil_def using secs_bounds[OF assms(5)] by simp
  also have "\<dots> \<le> (daysSinceEpoch y + yearLen y) * 86400" using yb by simp
  finally show ?thesis by (simp add: daysSinceEpoch_Suc)
qed

section \<open>The calendar: the fields that are read are in their usual ranges\<close>

lemma month_exists:
  assumes "0 \<le> x" "x < 365"
  shows "\<exists>m. 1 \<le> m \<and> m \<le> 12 \<and> daysBefore ! nat (m - 1) \<le> x \<and> x < daysBefore ! nat m"
proof -
  have h1: ?thesis if "x < 31"
    using that assms by (intro exI[of _ 1]) (simp add: daysBefore_def)
  have h2: ?thesis if "x < 59"
  proof (cases "x < 31")
    case True
    then show ?thesis by (rule h1)
  next
    case False
    then show ?thesis using that by (intro exI[of _ 2]) (simp add: daysBefore_def)
  qed
  have h3: ?thesis if "x < 90"
  proof (cases "x < 59")
    case True
    then show ?thesis by (rule h2)
  next
    case False
    then show ?thesis using that by (intro exI[of _ 3]) (simp add: daysBefore_def)
  qed
  have h4: ?thesis if "x < 120"
  proof (cases "x < 90")
    case True
    then show ?thesis by (rule h3)
  next
    case False
    then show ?thesis using that by (intro exI[of _ 4]) (simp add: daysBefore_def)
  qed
  have h5: ?thesis if "x < 151"
  proof (cases "x < 120")
    case True
    then show ?thesis by (rule h4)
  next
    case False
    then show ?thesis using that by (intro exI[of _ 5]) (simp add: daysBefore_def)
  qed
  have h6: ?thesis if "x < 181"
  proof (cases "x < 151")
    case True
    then show ?thesis by (rule h5)
  next
    case False
    then show ?thesis using that by (intro exI[of _ 6]) (simp add: daysBefore_def)
  qed
  have h7: ?thesis if "x < 212"
  proof (cases "x < 181")
    case True
    then show ?thesis by (rule h6)
  next
    case False
    then show ?thesis using that by (intro exI[of _ 7]) (simp add: daysBefore_def)
  qed
  have h8: ?thesis if "x < 243"
  proof (cases "x < 212")
    case True
    then show ?thesis by (rule h7)
  next
    case False
    then show ?thesis using that by (intro exI[of _ 8]) (simp add: daysBefore_def)
  qed
  have h9: ?thesis if "x < 273"
  proof (cases "x < 243")
    case True
    then show ?thesis by (rule h8)
  next
    case False
    then show ?thesis using that by (intro exI[of _ 9]) (simp add: daysBefore_def)
  qed
  have h10: ?thesis if "x < 304"
  proof (cases "x < 273")
    case True
    then show ?thesis by (rule h9)
  next
    case False
    then show ?thesis using that by (intro exI[of _ 10]) (simp add: daysBefore_def)
  qed
  have h11: ?thesis if "x < 334"
  proof (cases "x < 304")
    case True
    then show ?thesis by (rule h10)
  next
    case False
    then show ?thesis using that by (intro exI[of _ 11]) (simp add: daysBefore_def)
  qed
  have h12: ?thesis if "x < 365"
  proof (cases "x < 334")
    case True
    then show ?thesis by (rule h11)
  next
    case False
    then show ?thesis using that by (intro exI[of _ 12]) (simp add: daysBefore_def)
  qed
  show ?thesis using assms(2) by (rule h12)
qed

lemma absDate_ranges:
  assumes "absDate a = (y, m, d, yd)"
  shows "1 \<le> m" "m \<le> 12" "1 \<le> d" "d \<le> 31"
proof -
  obtain y' yd' where r: "yearOfDays (a div 86400) = (y', yd')" by (cases "yearOfDays (a div 86400)")
  from yearOfDays_sound[OF r] have b: "0 \<le> yd'" "yd' < yearLen y'" by simp_all
  have "1 \<le> m \<and> m \<le> 12 \<and> 1 \<le> d \<and> d \<le> 31"
  proof (cases "isLeap y' \<and> yd' = 59")
    case True
    then show ?thesis using assms unfolding absDate_split r by simp
  next
    case False
    define x where "x = (if isLeap y' \<and> yd' > 59 then yd' - 1 else yd')"
    have xb: "0 \<le> x" "x < 365" using b False by (auto simp: x_def yearLen_def split: if_splits)
    from month_exists[OF xb] obtain k where k: "1 \<le> k" "k \<le> 12"
      "daysBefore ! nat (k - 1) \<le> x" "x < daysBefore ! nat k" by blast
    have mo: "monthOfDay x = (k, x - daysBefore ! nat (k - 1) + 1)" using k by (rule monthOfDay_correct)
    have "absDate a = (case monthOfDay x of (m, dd) \<Rightarrow> (y', m, dd, yd'))"
      unfolding absDate_split r prod.case x_def using False by (rule if_not_P)
    then have "absDate a = (y', k, x - daysBefore ! nat (k - 1) + 1, yd')"
      unfolding mo by simp
    then have "m = k" "d = x - daysBefore ! nat (k - 1) + 1" using assms by simp_all
    then show ?thesis using k daysBefore_mono(1)[OF k(1,2)] by simp
  qed
  then show "1 \<le> m" "m \<le> 12" "1 \<le> d" "d \<le> 31" by simp_all
qed

lemma Time_Date_ranges:
  assumes "Time_Date t loc = (y, m, d)"
  shows "1 \<le> m" "m \<le> 12" "1 \<le> d" "d \<le> 31" "y = Year t loc"
proof -
  obtain y' m' d' yd where a: "absDate (Time_abs t loc) = (y', m', d', yd)"
    by (cases "absDate (Time_abs t loc)")
  then have e: "y = y'" "m = m'" "d = d'" using assms by (simp_all add: Time_Date_def)
  show "1 \<le> m" "m \<le> 12" "1 \<le> d" "d \<le> 31" using absDate_ranges[OF a] e by simp_all
  show "y = Year t loc" using a e by (simp add: Year_def)
qed

lemma Clock_valid:
  assumes "Clock t loc = (h, mi, s)"
  shows "validClock h mi s"
proof -
  define S where "S = Time_abs t loc mod 86400"
  have r: "0 \<le> S" "S < 86400" by (simp_all add: S_def)
  define H where "H = S div 3600"
  have Hb: "3600 * H \<le> S" "S < 3600 * H + 3600" using div_bounds[of 3600 S] by (simp_all add: H_def)
  define R where "R = S - H * 3600"
  define Mi where "Mi = R div 60"
  have Mb: "60 * Mi \<le> R" "R < 60 * Mi + 60" using div_bounds[of 60 R] by (simp_all add: Mi_def)
  have "Clock t loc = (H, Mi, R - Mi * 60)"
    by (simp add: Clock_def Let_def S_def H_def R_def Mi_def)
  then have e: "h = H" "mi = Mi" "s = R - Mi * 60" using assms by simp_all
  show ?thesis unfolding validClock_def e using r Hb Mb by (auto simp: R_def)
qed

section \<open>Zones\<close>

lemma dateOffset_within:
  "offsetsWithin loc M \<Longrightarrow> - M \<le> dateOffset loc u \<and> dateOffset loc u \<le> M"
  using dateOffset_cases[of loc u] by (auto simp: offsetsWithin_def)

text \<open>In a calm stretch every wall clock reading that is not near its ends is settled.\<close>

lemma calm_settled:
  assumes "offsetsWithin loc M" and "calm loc M c" and "c - 2 * M \<le> u" "u < c + 2 * M"
  obtains off where "settled loc off u" and "\<And>s. c - 3 * M \<le> s \<Longrightarrow> s < c + 3 * M \<Longrightarrow> offsetAt loc s = off"
    and "- M \<le> off" "off \<le> M"
proof -
  from assms(2) obtain off where o: "\<And>s. c - 3 * M \<le> s \<Longrightarrow> s < c + 3 * M \<Longrightarrow> offsetAt loc s = off"
    unfolding calm_def by blast
  have M: "- M \<le> offsetAt loc u" "offsetAt loc u \<le> M" using assms(1) by (simp_all add: offsetsWithin_def)
  then have M0: "0 \<le> M" by simp
  have u: "offsetAt loc u = off" using assms(3,4) M0 by (intro o) simp_all
  then have b: "- M \<le> off" "off \<le> M" using M by simp_all
  have "offsetAt loc (u - off) = off" using assms(3,4) b by (intro o) simp_all
  then have "settled loc off u" using u by (simp add: settled_def)
  then show ?thesis using o b by (rule that)
qed

lemma startOfYear: "wallUnix Y 1 1 0 0 0 = daysSinceEpoch Y * 86400 - unixToInternal"
  by (simp add: wallUnix_civil validClock_def civil_def ydayOf_def daysBefore_def)

text \<open>
  A date of a year up to the year of \<open>now\<close>, moved one year back, is before \<open>now\<close>
  when the zone is calm around the start of the year of \<open>now\<close>.
\<close>

lemma rollback_before_now:
  assumes w: "offsetsWithin loc M" and c: "calm loc M (wallUnix (Year now loc) 1 1 0 0 0)"
    and f: "1 \<le> m" "m \<le> 12" "1 \<le> d" "d \<le> 31" "validClock h mi s" "0 \<le> ns" "ns < 1000000000"
    and y: "y \<le> Year now loc"
  shows "wall_sec (Date (y - 1) m d h mi s ns loc) < wall_sec now"
proof -
  define Y where "Y = Year now loc"
  define S where "S = daysSinceEpoch Y * 86400"
  define W where "W = civil (y - 1) m d h mi s"
  define u where "u = W - unixToInternal"
  define c0 where "c0 = S - unixToInternal"
  have c': "calm loc M c0" using c unfolding Y_def[symmetric] startOfYear c0_def S_def .
  have "W < daysSinceEpoch (y - 1 + 1) * 86400"
    unfolding W_def using f(1-5) by (rule civil_before_next_year)
  also have "\<dots> \<le> S" unfolding S_def using y daysSinceEpoch_mono[of y Y] by (simp add: Y_def)
  finally have WS: "u < c0" by (simp add: u_def c0_def)
  have D: "wall_sec (Date (y - 1) m d h mi s ns loc) = W - dateOffset loc u"
    using f by (simp add: Date_abs W_def u_def)
  have p: "- M \<le> dateOffset loc u" "dateOffset loc u \<le> M" using dateOffset_within[OF w] by simp_all
  have on: "- M \<le> offsetAt loc (unixSec now)" "offsetAt loc (unixSec now) \<le> M"
    using w by (simp_all add: offsetsWithin_def)
  have "S \<le> Time_abs now loc" unfolding S_def Y_def by (rule Year_begins)
  then have n: "c0 \<le> unixSec now + offsetAt loc (unixSec now)"
    by (simp add: Time_abs_offsetAt c0_def unixSec_def internalToUnix_def)
  have "W - dateOffset loc u - unixToInternal < unixSec now"
  proof (cases "u < c0 - 2 * M")
    case True
    then show ?thesis using p on n by (simp add: u_def)
  next
    case False
    then have r: "c0 - 2 * M \<le> u" "u < c0 + 2 * M" using WS on by simp_all
    from calm_settled[OF w c' r] obtain off where o: "settled loc off u"
      and a: "\<And>s. c0 - 3 * M \<le> s \<Longrightarrow> s < c0 + 3 * M \<Longrightarrow> offsetAt loc s = off"
      and b: "- M \<le> off" "off \<le> M" by blast
    have e: "dateOffset loc u = off" using o by (rule dateOffset_settled)
    show ?thesis
    proof (cases "unixSec now < c0 + 3 * M")
      case True
      have "offsetAt loc (unixSec now) = off" using True n on by (intro a) simp_all
      then show ?thesis using n WS unfolding e by (simp add: u_def)
    next
      case False
      then show ?thesis using WS b unfolding e by (simp add: u_def)
    qed
  qed
  then show ?thesis unfolding D by (simp add: unixSec_def internalToUnix_def)
qed

text \<open>
  A date made in the year \<open>Y\<close> reads back in a year up to \<open>Y\<close> when the zone is calm
  around the end of the year.
\<close>

lemma Year_Date_le:
  assumes w: "offsetsWithin loc M" and c: "calm loc M (wallUnix (Y + 1) 1 1 0 0 0)"
    and f: "1 \<le> m" "m \<le> 12" "1 \<le> d" "d \<le> 31" "validClock h mi s" "0 \<le> ns" "ns < 1000000000"
  shows "Year (Date Y m d h mi s ns loc) loc \<le> Y"
proof -
  define t where "t = Date Y m d h mi s ns loc"
  define S where "S = daysSinceEpoch (Y + 1) * 86400"
  define W where "W = civil Y m d h mi s"
  define u where "u = W - unixToInternal"
  define c0 where "c0 = S - unixToInternal"
  have c': "calm loc M c0" using c unfolding startOfYear c0_def S_def .
  have "W < S" unfolding W_def S_def using f(1-5) by (rule civil_before_next_year)
  then have WS: "u < c0" by (simp add: u_def c0_def)
  have D: "t = \<lparr>wall_sec = W - dateOffset loc u, wall_nsec = ns\<rparr>"
    unfolding t_def using f by (simp add: Date_abs W_def u_def)
  have us: "unixSec t = u - dateOffset loc u" by (simp add: D unixSec_def internalToUnix_def u_def)
  have A: "Time_abs t loc = W - dateOffset loc u + offsetAt loc (u - dateOffset loc u)"
    unfolding Time_abs_offsetAt us by (simp add: D)
  have p: "- M \<le> dateOffset loc u" "dateOffset loc u \<le> M" using dateOffset_within[OF w] by simp_all
  have q: "- M \<le> offsetAt loc (u - dateOffset loc u)" "offsetAt loc (u - dateOffset loc u) \<le> M"
    using w by (simp_all add: offsetsWithin_def)
  have "Time_abs t loc < S"
  proof (cases "u < c0 - 2 * M")
    case True
    then show ?thesis unfolding A using p q by (simp add: u_def c0_def)
  next
    case False
    then have r: "c0 - 2 * M \<le> u" "u < c0 + 2 * M" using WS p by simp_all
    from calm_settled[OF w c' r] obtain off where o: "settled loc off u" by blast
    have "dateOffset loc u = off" using o by (rule dateOffset_settled)
    moreover have "offsetAt loc (u - off) = off" using o by (simp add: settled_def)
    ultimately show ?thesis unfolding A using \<open>W < S\<close> by simp
  qed
  moreover have "daysSinceEpoch (Year t loc) * 86400 \<le> Time_abs t loc" by (rule Year_begins)
  ultimately have lt: "daysSinceEpoch (Year t loc) < daysSinceEpoch (Y + 1)" by (simp add: S_def)
  have "\<not> Y + 1 \<le> Year t loc"
  proof
    assume "Y + 1 \<le> Year t loc"
    then have "daysSinceEpoch (Y + 1) \<le> daysSinceEpoch (Year t loc)" by (rule daysSinceEpoch_mono)
    then show False using lt by simp
  qed
  then show ?thesis unfolding t_def by simp
qed

section \<open>Parsing a date stamp\<close>

lemma chunks_noYear:
  "nextStdChunk ''Jan  2 15:04'' = ([], Some stdMonth, ''  2 15:04'')"
  "nextStdChunk ''  2 15:04'' = (''  '', Some stdDay, '' 15:04'')"
  "nextStdChunk '' 15:04'' = ('' '', Some stdHour, '':04'')"
  "nextStdChunk '':04'' = ('':'', Some stdZeroMinute, [])"
  "nextStdChunk [] = ([], None, [])"
  by (simp_all add: nextStdChunk_def HasPrefix_def startsWithLowerCase_def)

lemma chunks_year:
  "nextStdChunk ''Jan 2 2006'' = ([], Some stdMonth, '' 2 2006'')"
  "nextStdChunk '' 2 2006'' = ('' '', Some stdDay, '' 2006'')"
  "nextStdChunk '' 2006'' = ('' '', Some stdLongYear, [])"
  by (simp_all add: nextStdChunk_def HasPrefix_def startsWithLowerCase_def)

lemma lookupFrom_range:
  "lookupFrom i tab v = (m, rest, False) \<Longrightarrow> i \<le> m \<and> m < i + int (length tab)"
  by (induction tab arbitrary: i) (auto split: if_splits, force+)

lemma digitVal_range: "isDigit s i \<Longrightarrow> 0 \<le> digitVal (s ! i) \<and> digitVal (s ! i) \<le> 9"
  by (auto simp: isDigit_def digitVal_def split: if_splits)

lemma getnum_range: "getnum s fixed = (n, rest, False) \<Longrightarrow> 0 \<le> n \<and> n \<le> 99"
  using digitVal_range[of s 0] digitVal_range[of s 1]
  by (auto simp: getnum_def split: if_splits)


lemma parseLoop_step:
  assumes "nextStdChunk layout = (prefix, Some elem, suffix)"
    and "parseLoop al av layout v st = Inr res"
  shows "\<exists>v1 v2 st2. skip v prefix = (v1, False) \<and> parseStd elem v1 st = (v2, st2, [], False)
           \<and> parseLoop al av suffix v2 st2 = Inr res"
  using assms(2)
  by (subst (asm) parseLoop.simps) (auto simp: assms(1) Let_def split: prod.splits bool.splits if_splits)

lemma parseLoop_end:
  assumes "parseLoop al av [] v st = Inr res"
  shows "res = (st, [])"
  using assms
  by (subst (asm) parseLoop.simps) (auto simp: chunks_noYear Let_def split: if_splits)

lemma parseStd_stdMonth:
  assumes "parseStd stdMonth v st = (v', st', r, False)"
  shows "1 \<le> f_month st' \<and> f_month st' \<le> 12 \<and> st' = st\<lparr>f_month := f_month st'\<rparr>"
proof -
  obtain i rest where l: "lookup shortMonthNames v = (i, rest, False)" and s: "st' = st\<lparr>f_month := i + 1\<rparr>"
    using assms by (auto simp: parseStd_def split: prod.splits)
  from l have "0 \<le> i \<and> i < 0 + int (length shortMonthNames)"
    unfolding lookup_def by (rule lookupFrom_range)
  then show ?thesis unfolding s by (simp add: shortMonthNames_def)
qed

lemma parseStd_stdDay:
  assumes "parseStd stdDay v st = (v', st', r, False)"
  shows "0 \<le> f_day st' \<and> f_day st' \<le> 99 \<and> st' = st\<lparr>f_day := f_day st'\<rparr>"
proof -
  obtain n rest where l: "getnum v False = (n, rest, False)" and s: "st' = st\<lparr>f_day := n\<rparr>"
    using assms by (auto simp: parseStd_def split: prod.splits)
  from getnum_range[OF l] show ?thesis unfolding s by simp
qed

lemma parseStd_stdHour:
  assumes "parseStd stdHour v st = (v', st', [], False)"
  shows "0 \<le> f_hour st' \<and> f_hour st' < 24 \<and> st' = st\<lparr>f_hour := f_hour st'\<rparr>"
proof -
  obtain n rest where s: "st' = st\<lparr>f_hour := n\<rparr>" and "\<not> (n < 0 \<or> 24 \<le> n)"
    using assms by (auto simp: parseStd_def split: prod.splits if_splits)
  then show ?thesis by simp
qed

lemma parseStd_stdZeroMinute:
  assumes "parseStd stdZeroMinute v st = (v', st', [], False)"
  shows "0 \<le> f_min st' \<and> f_min st' < 60 \<and> st' = st\<lparr>f_min := f_min st'\<rparr>"
proof -
  obtain n rest where s: "st' = st\<lparr>f_min := n\<rparr>" and "\<not> (n < 0 \<or> 60 \<le> n)"
    using assms by (auto simp: parseStd_def split: prod.splits if_splits)
  then show ?thesis by simp
qed

lemma parseStd_stdLongYear:
  assumes "parseStd stdLongYear v st = (v', st', r, False)"
  shows "st' = st\<lparr>f_year := f_year st'\<rparr>"
  using assms by (auto simp: parseStd_def split: prod.splits if_splits)

text \<open>What the loop leaves in the fields when it succeeds on the layout without a year.\<close>

lemma parseLoop_noYear:
  assumes "parseLoop al av dateWithTimeNoYearLayout v st = Inr (st', rest)"
  shows "1 \<le> f_month st' \<and> f_month st' \<le> 12 \<and> 0 \<le> f_day st' \<and> f_day st' \<le> 99
         \<and> 0 \<le> f_hour st' \<and> f_hour st' < 24 \<and> 0 \<le> f_min st' \<and> f_min st' < 60
         \<and> f_year st' = f_year st \<and> rest = []"
proof -
  from parseLoop_step[OF chunks_noYear(1) assms[unfolded dateWithTimeNoYearLayout_def]]
  obtain v1 v2 st2 where 1: "parseStd stdMonth v1 st = (v2, st2, [], False)"
    and l1: "parseLoop al av ''  2 15:04'' v2 st2 = Inr (st', rest)" by blast
  from parseLoop_step[OF chunks_noYear(2) l1]
  obtain v3 v4 st4 where 2: "parseStd stdDay v3 st2 = (v4, st4, [], False)"
    and l2: "parseLoop al av '' 15:04'' v4 st4 = Inr (st', rest)" by blast
  from parseLoop_step[OF chunks_noYear(3) l2]
  obtain v5 v6 st6 where 3: "parseStd stdHour v5 st4 = (v6, st6, [], False)"
    and l3: "parseLoop al av '':04'' v6 st6 = Inr (st', rest)" by blast
  from parseLoop_step[OF chunks_noYear(4) l3]
  obtain v7 v8 st8 where 4: "parseStd stdZeroMinute v7 st6 = (v8, st8, [], False)"
    and l4: "parseLoop al av [] v8 st8 = Inr (st', rest)" by blast
  from parseLoop_end[OF l4] have e: "st' = st8" "rest = []" by simp_all
  note m = parseStd_stdMonth[OF 1] and d = parseStd_stdDay[OF 2]
    and h = parseStd_stdHour[OF 3] and mi = parseStd_stdZeroMinute[OF 4]
  have "f_month st8 = f_month st2" "f_day st8 = f_day st4" "f_hour st8 = f_hour st6"
    "f_year st8 = f_year st"
    by (metis d h mi fields.select_convs(2) fields.select_convs(3) fields.select_convs(4) fields.select_convs(1) m fields.surjective fields.update_convs)+
  then show ?thesis using m d h mi e by simp
qed

lemma parseFields_noYear:
  assumes "parseFields dateWithTimeNoYearLayout v = Inr (y, m, d, h, mi)"
  shows "y = 0" and "1 \<le> m" and "m \<le> 12" and "1 \<le> d" and "d \<le> daysIn m 0" and "validClock h mi 0"
proof -
  define st0 where "st0 = \<lparr>f_year = 0, f_month = - 1, f_day = - 1, f_hour = 0, f_min = 0\<rparr>"
  obtain st' rest where l: "parseLoop dateWithTimeNoYearLayout v dateWithTimeNoYearLayout v st0 = Inr (st', rest)"
    using assms unfolding parseFields_def st0_def[symmetric] by (auto split: sum.splits)
  note b = parseLoop_noYear[OF l]
  have y0: "f_year st' = 0" using b by (simp add: st0_def)
  have eq: "\<not> (f_day st' < 1 \<or> f_day st' > daysIn (f_month st') (f_year st'))
      \<and> (y, m, d, h, mi) = (f_year st', f_month st', f_day st', f_hour st', f_min st')"
    using assms b unfolding parseFields_def st0_def[symmetric] l Let_def
    by (simp split: if_splits)
  show "y = 0" and "1 \<le> m" and "m \<le> 12" and "1 \<le> d" and "d \<le> daysIn m 0" and "validClock h mi 0"
    using b eq y0 by (auto simp: validClock_def)
qed

section \<open>Properties of the date resolver and of the recency classifier\<close>

lemma ParseInLocation_Inr:
  "parseFields layout v = Inr (y, m, d, h, mi) \<Longrightarrow> ParseInLocation layout v loc = Inr (Date y m d h mi 0 0 loc)"
  by (simp add: ParseInLocation_def)

lemma ParseInLocation_Inl:
  "parseFields layout v = Inl e \<Longrightarrow> ParseInLocation layout v loc = Inl e"
  by (simp add: ParseInLocation_def)

text \<open>The two branches of the resolver on a date stamp without a year, by its fields.\<close>

lemma noYear_resolved:
  assumes p: "parseFields dateWithTimeNoYearLayout dateString = Inr (year, month, day, hour, minute)"
  shows "parseDateStampToTime loc now dateString =
           Inr (if After (AddDate (Date 0 month day hour minute 0 0 loc) (Year now loc) 0 0 loc) now
                then AddDate (AddDate (Date 0 month day hour minute 0 0 loc) (Year now loc) 0 0 loc) (- 1) 0 0 loc
                else AddDate (Date 0 month day hour minute 0 0 loc) (Year now loc) 0 0 loc)"
proof -
  note f = parseFields_noYear[OF p]
  have raw: "ParseInLocation dateWithTimeNoYearLayout dateString loc = Inr (Date 0 month day hour minute 0 0 loc)"
    using ParseInLocation_Inr[OF p] f(1) by simp
  show ?thesis
    unfolding parseDateStampToTime_def raw by (simp add: Let_def)
qed

lemma year_added:
  assumes m: "1 \<le> month" "month \<le> 12" and d: "1 \<le> day" "day \<le> daysIn month 0"
    and c: "validClock hour minute 0"
    and s: "settled loc off (wallUnix 0 month day hour minute 0)"
  shows "AddDate (Date 0 month day hour minute 0 0 loc) Y 0 0 loc = Date Y month day hour minute 0 0 loc"
proof -
  have "AddDate (Date 0 month day hour minute 0 0 loc) Y 0 0 loc = Date (0 + Y) month day hour minute 0 0 loc"
    using m d c s by (intro AddDate_years[where off = off]) simp_all
  then show ?thesis by simp
qed

lemma rollback_explicit:
  assumes m: "1 \<le> month" "month \<le> 12" and d: "1 \<le> day" "day \<le> daysIn month 0"
    and c: "validClock hour minute 0"
    and s: "settled loc off (wallUnix Y month day hour minute 0)"
  shows "AddDate (Date Y month day hour minute 0 0 loc) (- 1) 0 0 loc =
           (if month = 2 \<and> day = 29 \<and> \<not> isLeap Y
            then Date (Y - 1) 3 1 hour minute 0 0 loc
            else Date (Y - 1) month day hour minute 0 0 loc)"
proof -
  have l0: "isLeap 0" by (simp add: isLeap_def)
  from daysIn_29[OF m d l0, of Y]
  consider (ok) "day \<le> daysIn month Y" | (feb) "month = 2" "day = 29" "\<not> isLeap Y" by blast
  then show ?thesis
  proof cases
    case ok
    then have "\<not> (month = 2 \<and> day = 29 \<and> \<not> isLeap Y)"
      by (auto simp: daysIn_def daysBefore_def split: if_splits)
    moreover have "AddDate (Date Y month day hour minute 0 0 loc) (- 1) 0 0 loc
        = Date (Y + - 1) month day hour minute 0 0 loc"
      using m d(1) ok c s by (intro AddDate_years[where off = off]) simp_all
    ultimately show ?thesis by (simp only: if_not_P) simp
  next
    case feb
    have e: "Date Y 2 29 hour minute 0 0 loc = Date Y 3 1 hour minute 0 0 loc"
      using feb(3) c by (intro Date_Feb_29) simp_all
    have s': "settled loc off (wallUnix Y 3 1 hour minute 0)"
      using s feb wallUnix_Feb_29[OF feb(3) c] by simp
    have "AddDate (Date Y 3 1 hour minute 0 0 loc) (- 1) 0 0 loc = Date (Y + - 1) 3 1 hour minute 0 0 loc"
      using c s' by (intro AddDate_years[where off = off]) (simp_all add: daysIn_def daysBefore_def)
    then show ?thesis using feb e by simp
  qed
qed

text \<open>
  Claim C1. For every date stamp that parses in the form without a year, with the
  fields month, day, hour and minute, and for every zone that \<open>time.Local\<close> may be:
  \<open>parseDateStampToTime\<close> returns the parsed time (these fields in year 0) with
  \<open>now.Year()\<close> added by \<open>AddDate\<close>, unless that instant is strictly after \<open>now\<close>:
  then it returns that instant with one year subtracted by \<open>AddDate\<close>. The last two
  conjuncts spell out the two steps where the wall clock reading is settled in the zone
  (no change of offset skips or repeats it): adding the year gives the same fields in the
  year of \<open>now\<close>, and subtracting one gives them in the year before, where February 29
  of a year that is not a leap year has become March 1.
\<close>

theorem parseDateStampToTime_noYear:
  assumes "parseFields dateWithTimeNoYearLayout dateString = Inr (year, month, day, hour, minute)"
  shows "year = 0
     \<and> ParseInLocation dateWithTimeNoYearLayout dateString loc = Inr (Date 0 month day hour minute 0 0 loc)
     \<and> parseDateStampToTime loc now dateString =
         Inr (if After (AddDate (Date 0 month day hour minute 0 0 loc) (Year now loc) 0 0 loc) now
              then AddDate (AddDate (Date 0 month day hour minute 0 0 loc) (Year now loc) 0 0 loc) (- 1) 0 0 loc
              else AddDate (Date 0 month day hour minute 0 0 loc) (Year now loc) 0 0 loc)
     \<and> (\<forall>off. settled loc off (wallUnix 0 month day hour minute 0) \<longrightarrow>
          AddDate (Date 0 month day hour minute 0 0 loc) (Year now loc) 0 0 loc
            = Date (Year now loc) month day hour minute 0 0 loc)
     \<and> (\<forall>off. settled loc off (wallUnix (Year now loc) month day hour minute 0) \<longrightarrow>
          AddDate (Date (Year now loc) month day hour minute 0 0 loc) (- 1) 0 0 loc =
            (if month = 2 \<and> day = 29 \<and> \<not> isLeap (Year now loc)
             then Date (Year now loc - 1) 3 1 hour minute 0 0 loc
             else Date (Year now loc - 1) month day hour minute 0 0 loc))"
proof -
  note f = parseFields_noYear[OF assms]
  have "ParseInLocation dateWithTimeNoYearLayout dateString loc = Inr (Date 0 month day hour minute 0 0 loc)"
    using ParseInLocation_Inr[OF assms] f(1) by simp
  moreover note noYear_resolved[OF assms, of loc now]
  moreover have "AddDate (Date 0 month day hour minute 0 0 loc) (Year now loc) 0 0 loc
      = Date (Year now loc) month day hour minute 0 0 loc"
    if "settled loc off (wallUnix 0 month day hour minute 0)" for off
    using f(2-6) that by (rule year_added)
  moreover have "AddDate (Date (Year now loc) month day hour minute 0 0 loc) (- 1) 0 0 loc =
            (if month = 2 \<and> day = 29 \<and> \<not> isLeap (Year now loc)
             then Date (Year now loc - 1) 3 1 hour minute 0 0 loc
             else Date (Year now loc - 1) month day hour minute 0 0 loc)"
    if "settled loc off (wallUnix (Year now loc) month day hour minute 0)" for off
    using f(2-6) that by (rule rollback_explicit)
  ultimately show ?thesis using f(1) by blast
qed

text \<open>
  Claim C10, as amended. Whenever the date stamp is resolved in the form without a
  year, the returned instant is not strictly after \<open>now\<close>, in every zone of which the
  offsets are within some \<open>M\<close> seconds of UTC, that is calm around the start and around
  the end of the year of \<open>now\<close>, and in which the parsed time of the year 0 is settled.
\<close>

theorem parseDateStampToTime_noYear_not_future:
  assumes "parseFields dateWithTimeNoYearLayout dateString = Inr (year, month, day, hour, minute)"
    and "offsetsWithin loc M"
    and "settled loc off (wallUnix 0 month day hour minute 0)"
    and "calm loc M (wallUnix (Year now loc) 1 1 0 0 0)"
    and "calm loc M (wallUnix (Year now loc + 1) 1 1 0 0 0)"
  shows "\<exists>t. parseDateStampToTime loc now dateString = Inr t \<and> \<not> After t now"
proof -
  note f = parseFields_noYear[OF assms(1)]
  define Y where "Y = Year now loc"
  define yds where "yds = Date Y month day hour minute 0 0 loc"
  have d31: "day \<le> 31" using f daysBefore_mono(1)[OF f(2,3)] by (auto simp: daysIn_def split: if_splits)
  have a: "AddDate (Date 0 month day hour minute 0 0 loc) Y 0 0 loc = yds"
    unfolding yds_def using f(2-6) assms(3) by (rule year_added)
  have r: "parseDateStampToTime loc now dateString =
      Inr (if After yds now then AddDate yds (- 1) 0 0 loc else yds)"
    using noYear_resolved[OF assms(1), of loc now] unfolding Y_def[symmetric] a .
  show ?thesis
  proof (cases "After yds now")
    case False
    then show ?thesis using r by simp
  next
    case True
    obtain y' m' d' where td: "Time_Date yds loc = (y', m', d')" by (cases "Time_Date yds loc")
    obtain h' mi' s' where ck: "Clock yds loc = (h', mi', s')" by (cases "Clock yds loc")
    note tr = Time_Date_ranges[OF td]
    have vc: "validClock h' mi' s'" using ck by (rule Clock_valid)
    have ns: "wall_nsec yds = 0" unfolding yds_def using f by (simp add: Date_abs)
    have "Year yds loc \<le> Y"
      unfolding yds_def using assms(2) assms(5)[folded Y_def] f(2,3,4) d31 f(6)
      by (rule Year_Date_le) simp_all
    then have y': "y' \<le> Year now loc" using tr(5) by (simp add: Y_def)
    define t where "t = AddDate yds (- 1) 0 0 loc"
    have t: "t = Date (y' - 1) m' d' h' mi' s' 0 loc"
      unfolding t_def AddDate_def td ck ns by simp
    have "wall_sec t < wall_sec now"
      unfolding t using assms(2,4) tr(1-4) vc by (rule rollback_before_now) (simp_all add: y')
    then have "\<not> After t now" by (simp add: After_def)
    then show ?thesis using r True by (simp add: t_def)
  qed
qed

text \<open>
  Claim C9. When both forms fail to parse, \<open>parseDateStampToTime\<close> fails with the
  \<open>*time.ParseError\<close> of the second attempt itself, with all its fields.
\<close>

theorem parseDateStampToTime_both_fail:
  assumes "ParseInLocation dateWithTimeNoYearLayout dateString loc = Inl err1"
    and "ParseInLocation dateWithYearLayout dateString loc = Inl err2"
  shows "parseDateStampToTime loc now dateString = Inl (TimeParseError err2)"
  using assms by (simp add: parseDateStampToTime_def)

text \<open>
  Claim C7. \<open>fileIsRecent\<close> is true exactly when \<open>now\<close> minus the creation time
  of the entry, in nanoseconds, is less than 30 days. The saturation of \<open>Sub\<close> does
  not change the comparison.
\<close>

theorem fileIsRecent_iff:
  "fileIsRecent now f \<longleftrightarrow>
     (wall_sec now * 1000000000 + wall_nsec now) - (wall_sec (created f) * 1000000000 + wall_nsec (created f))
       < 30 * 24 * 3600 * 1000000000"
  by (auto simp: fileIsRecent_def Sub_def recentDuration_def maxDuration_def minDuration_def Let_def algebra_simps)

text \<open>
  In \<open>America/Chicago\<close>, at 2024-11-04 15:30 UTC (09:30 local): \<open>Nov 4 10:00\<close> is
  half an hour ahead in 2024 and resolves to 2023-11-04 10:00 local, which is 15:00 UTC
  (the zone was five hours west on that day, and is six hours west at \<open>now\<close>);
  \<open>Sep 26 14:55\<close> resolves to that time in 2024; \<open>Mar 10 02:30\<close>, a reading that the
  change of offset on that day skips, resolves to 07:30 UTC, which reads 01:30 local. At
  2025-02-01 12:00 UTC, \<open>Feb 29 23:59\<close> resolves to 2024-03-01 23:59 local. At
  2023-07-01 12:00 UTC, in summer, \<open>Jan 15 10:00\<close> resolves to 16:00 UTC on that
  day of 2023, with the offset of the winter.
\<close>

theorem parseDateStampToTime_noYear_witness:
  "parseDateStampToTime chicago (unixTime 1730734200 0) ''Nov 4 10:00''
     = Inr (Date 2023 11 4 10 0 0 0 chicago)
   \<and> Date 2023 11 4 10 0 0 0 chicago = unixTime 1699110000 0
   \<and> parseDateStampToTime chicago (unixTime 1730734200 0) ''Sep 26 14:55''
     = Inr (Date 2024 9 26 14 55 0 0 chicago)
   \<and> parseDateStampToTime chicago (unixTime 1730734200 0) ''Mar 10 02:30'' = Inr (unixTime 1710055800 0)
   \<and> Clock (unixTime 1710055800 0) chicago = (1, 30, 0)
   \<and> parseDateStampToTime chicago (unixTime 1738411200 0) ''Feb 29 23:59''
     = Inr (Date 2024 3 1 23 59 0 0 chicago)
   \<and> parseDateStampToTime chicago (unixTime 1688212800 0) ''Jan 15 10:00''
     = Inr (Date 2023 1 15 10 0 0 0 chicago)
   \<and> Date 2023 1 15 10 0 0 0 chicago = unixTime 1673798400 0"
proof -
  define now where "now = unixTime 1730734200 0"
  define now' where "now' = unixTime 1738411200 0"
  define now'' where "now'' = unixTime 1688212800 0"
  have Y: "Year now chicago = 2024" "Year now' chicago = 2025" "Year now'' chicago = 2023"
    unfolding now_def now'_def now''_def by code_simp+
  have p5: "parseFields dateWithTimeNoYearLayout ''Jan 15 10:00'' = Inr (0, 1, 15, 10, 0)" by code_simp
  have s5: "settled chicago (- 21600) (wallUnix 0 1 15 10 0 0)" by code_simp
  have a5: "\<not> After (Date 2023 1 15 10 0 0 0 chicago) now''" unfolding now''_def by code_simp
  have e5: "Date 2023 1 15 10 0 0 0 chicago = unixTime 1673798400 0" by code_simp
  have l: "\<not> isLeap 2025" by code_simp
  have p1: "parseFields dateWithTimeNoYearLayout ''Nov 4 10:00'' = Inr (0, 11, 4, 10, 0)" by code_simp
  have p2: "parseFields dateWithTimeNoYearLayout ''Sep 26 14:55'' = Inr (0, 9, 26, 14, 55)" by code_simp
  have p3: "parseFields dateWithTimeNoYearLayout ''Mar 10 02:30'' = Inr (0, 3, 10, 2, 30)" by code_simp
  have p4: "parseFields dateWithTimeNoYearLayout ''Feb 29 23:59'' = Inr (0, 2, 29, 23, 59)" by code_simp
  have s1: "settled chicago (- 21600) (wallUnix 0 11 4 10 0 0)"
    "settled chicago (- 21600) (wallUnix 2024 11 4 10 0 0)" by code_simp+
  have s2: "settled chicago (- 21600) (wallUnix 0 9 26 14 55 0)" by code_simp
  have s4: "settled chicago (- 21600) (wallUnix 0 2 29 23 59 0)"
    "settled chicago (- 21600) (wallUnix 2025 2 29 23 59 0)" by code_simp+
  have a1: "After (Date 2024 11 4 10 0 0 0 chicago) now" unfolding now_def by code_simp
  have a2: "\<not> After (Date 2024 9 26 14 55 0 0 chicago) now" unfolding now_def by code_simp
  have a3: "(if After (AddDate (Date 0 3 10 2 30 0 0 chicago) (Year now chicago) 0 0 chicago) now
             then AddDate (AddDate (Date 0 3 10 2 30 0 0 chicago) (Year now chicago) 0 0 chicago) (- 1) 0 0 chicago
             else AddDate (Date 0 3 10 2 30 0 0 chicago) (Year now chicago) 0 0 chicago) = unixTime 1710055800 0"
    unfolding now_def by code_simp
  have a4: "After (Date 2025 2 29 23 59 0 0 chicago) now'" unfolding now'_def by code_simp
  have r1: "parseDateStampToTime chicago now ''Nov 4 10:00'' = Inr (Date 2023 11 4 10 0 0 0 chicago)"
    using parseDateStampToTime_noYear[OF p1, of chicago now] s1 a1 by (auto simp: Y)
  have r2: "parseDateStampToTime chicago now ''Sep 26 14:55'' = Inr (Date 2024 9 26 14 55 0 0 chicago)"
    using parseDateStampToTime_noYear[OF p2, of chicago now] s2 a2 by (auto simp: Y)
  have r3: "parseDateStampToTime chicago now ''Mar 10 02:30'' = Inr (unixTime 1710055800 0)"
    using parseDateStampToTime_noYear[OF p3, of chicago now] unfolding a3 by blast
  have r4: "parseDateStampToTime chicago now' ''Feb 29 23:59'' = Inr (Date 2024 3 1 23 59 0 0 chicago)"
    using parseDateStampToTime_noYear[OF p4, of chicago now'] s4 a4 l by (auto simp: Y)
  have r5: "parseDateStampToTime chicago now'' ''Jan 15 10:00'' = Inr (Date 2023 1 15 10 0 0 0 chicago)"
    using parseDateStampToTime_noYear[OF p5, of chicago now''] s5 a5 by (auto simp: Y)
  have e: "Date 2023 11 4 10 0 0 0 chicago = unixTime 1699110000 0" by code_simp
  have c: "Clock (unixTime 1710055800 0) chicago = (1, 30, 0)" by code_simp
  show ?thesis
    unfolding now_def[symmetric] now'_def[symmetric] now''_def[symmetric]
    using r1 r2 r3 r4 r5 e e5 c by simp
qed

lemma chicago_within: "offsetsWithin chicago 21600"
  by (simp add: offsetsWithin_def offsetAt_def chicago_def)

lemma chicago_calm_2024: "calm chicago 21600 1704067200"
  unfolding calm_def by (rule exI[of _ "- 21600"]) (simp add: offsetAt_def chicago_def)

lemma chicago_calm_2025: "calm chicago 21600 1735689600"
  unfolding calm_def by (rule exI[of _ "- 21600"]) (simp add: offsetAt_def chicago_def)

theorem parseDateStampToTime_noYear_not_future_witness:
  "\<exists>t. parseDateStampToTime chicago (unixTime 1730734200 0) ''Nov 4 10:00'' = Inr t
       \<and> \<not> After t (unixTime 1730734200 0)"
proof -
  have p: "parseFields dateWithTimeNoYearLayout ''Nov 4 10:00'' = Inr (0, 11, 4, 10, 0)" by code_simp
  have s: "settled chicago (- 21600) (wallUnix 0 11 4 10 0 0)" by code_simp
  have Y: "Year (unixTime 1730734200 0) chicago = 2024" by code_simp
  have w: "wallUnix 2024 1 1 0 0 0 = 1704067200" "wallUnix (2024 + 1) 1 1 0 0 0 = 1735689600" by code_simp+
  have c1: "calm chicago 21600 (wallUnix (Year (unixTime 1730734200 0) chicago) 1 1 0 0 0)"
    unfolding Y w by (rule chicago_calm_2024)
  have c2: "calm chicago 21600 (wallUnix (Year (unixTime 1730734200 0) chicago + 1) 1 1 0 0 0)"
    unfolding Y w by (rule chicago_calm_2025)
  show ?thesis by (rule parseDateStampToTime_noYear_not_future[OF p chicago_within s c1 c2])
qed

text \<open>
  Claim C10 as it is stated fails in a zone that skips across the end of a year. In
  \<open>Pacific/Kiritimati\<close> at 1994-12-31 10:50 UTC, which is 00:50 on January 1, 1995
  there, \<open>Dec 31 12:00\<close> is resolved in the form without a year: with the year 1995 it
  is after \<open>now\<close>, and one year back it is December 31, 1994, 12:00, a reading that
  the zone does not have. \<open>Date\<close> finds the offset of 14 hours east at that reading
  taken as UTC, is led by it to an instant before the change, and takes the offset of 10
  hours west from there: the result is 22:00 UTC, eleven hours after \<open>now\<close>.
\<close>

theorem parseDateStampToTime_noYear_future_in_gap:
  "parseFields dateWithTimeNoYearLayout ''Dec 31 12:00'' = Inr (0, 12, 31, 12, 0)
   \<and> Time_Date (unixTime 788871000 0) kiritimati = (1995, 1, 1)
   \<and> Clock (unixTime 788871000 0) kiritimati = (0, 50, 0)
   \<and> parseDateStampToTime kiritimati (unixTime 788871000 0) ''Dec 31 12:00'' = Inr (unixTime 788911200 0)
   \<and> After (unixTime 788911200 0) (unixTime 788871000 0)"
  by code_simp

text \<open>
  Claim C6. A date stamp that fails the form without a year and parses in the form
  with a year resolves to the parsed instant as it is, whatever \<open>now\<close> is and whatever
  zone \<open>time.Local\<close> is; in particular \<open>Apr 6 2022\<close> resolves to April 6, 2022, 00:00
  in the local zone, the value of \<open>time.Date(2022, 4, 6, 0, 0, 0, 0, time.Local)\<close>. That
  instant reads back as April 6, 2022, 00:00:00 in every zone in which this reading is
  settled, and so in every zone of one fixed offset.
\<close>

theorem parseDateStampToTime_withYear:
  "(\<forall>err t. ParseInLocation dateWithTimeNoYearLayout dateString loc = Inl err
            \<and> ParseInLocation dateWithYearLayout dateString loc = Inr t
        \<longrightarrow> parseDateStampToTime loc now dateString = Inr t)
   \<and> parseDateStampToTime loc now ''Apr 6 2022'' = Inr (Date 2022 4 6 0 0 0 0 loc)
   \<and> (\<forall>off. settled loc off (wallUnix 2022 4 6 0 0 0)
        \<longrightarrow> Time_Date (Date 2022 4 6 0 0 0 0 loc) loc = (2022, 4, 6)
          \<and> Clock (Date 2022 4 6 0 0 0 0 loc) loc = (0, 0, 0))
   \<and> Time_Date (Date 2022 4 6 0 0 0 0 (FixedZone offset)) (FixedZone offset) = (2022, 4, 6)
   \<and> Clock (Date 2022 4 6 0 0 0 0 (FixedZone offset)) (FixedZone offset) = (0, 0, 0)"
proof -
  have v: "(1::int) \<le> 4" "(4::int) \<le> 12" "(1::int) \<le> 6" "6 \<le> daysIn 4 2022" "validClock 0 0 0"
    "(0::int) \<le> 0" "(0::int) < 1000000000"
    by (simp_all add: daysIn_def daysBefore_def validClock_def)
  have 1: "parseFields dateWithTimeNoYearLayout ''Apr 6 2022'' =
      Inl \<lparr>Layout = ''Jan  2 15:04'', Value = ''Apr 6 2022'', LayoutElem = '':'',
           ValueElem = ''22'', Message = NoMessage\<rparr>"
    by code_simp
  have 2: "parseFields dateWithYearLayout ''Apr 6 2022'' = Inr (2022, 4, 6, 0, 0)" by code_simp
  have a: "parseDateStampToTime loc now dateString = Inr t"
    if "ParseInLocation dateWithTimeNoYearLayout dateString loc = Inl err
      \<and> ParseInLocation dateWithYearLayout dateString loc = Inr t" for err t
    using that by (simp add: parseDateStampToTime_def)
  have b: "parseDateStampToTime loc now ''Apr 6 2022'' = Inr (Date 2022 4 6 0 0 0 0 loc)"
    unfolding parseDateStampToTime_def ParseInLocation_Inl[OF 1] ParseInLocation_Inr[OF 2] by simp
  have c: "Time_Date (Date 2022 4 6 0 0 0 0 l) l = (2022, 4, 6) \<and> Clock (Date 2022 4 6 0 0 0 0 l) l = (0, 0, 0)"
    if "settled l off (wallUnix 2022 4 6 0 0 0)" for l off
    using Time_Date_Date(1)[OF v that] Time_Date_Date(3)[OF v that] by simp
  have "settled (FixedZone offset) offset (wallUnix 2022 4 6 0 0 0)"
    by (simp add: settled_def offsetAt_FixedZone)
  from c[OF this] show ?thesis using a b c by blast
qed

theorem parseDateStampToTime_withYear_witness:
  "parseDateStampToTime chicago (unixTime 1730734200 0) ''Apr  6  2022'' = Inr (Date 2022 4 6 0 0 0 0 chicago)
   \<and> parseDateStampToTime chicago (unixTime 0 0) ''Apr  6  2022'' = Inr (Date 2022 4 6 0 0 0 0 chicago)
   \<and> Time_Date (Date 2022 4 6 0 0 0 0 chicago) chicago = (2022, 4, 6)
   \<and> Clock (Date 2022 4 6 0 0 0 0 chicago) chicago = (0, 0, 0)
   \<and> unixSec (Date 2022 4 6 0 0 0 0 chicago) = 1649221200"
proof -
  have 1: "ParseInLocation dateWithTimeNoYearLayout ''Apr  6  2022'' chicago =
      Inl \<lparr>Layout = ''Jan  2 15:04'', Value = ''Apr  6  2022'', LayoutElem = '':'',
           ValueElem = ''22'', Message = NoMessage\<rparr>"
    by code_simp
  have 2: "ParseInLocation dateWithYearLayout ''Apr  6  2022'' chicago = Inr (Date 2022 4 6 0 0 0 0 chicago)"
    by code_simp
  have s: "settled chicago (- 18000) (wallUnix 2022 4 6 0 0 0)" by code_simp
  have u: "unixSec (Date 2022 4 6 0 0 0 0 chicago) = 1649221200" by code_simp
  show ?thesis
    using parseDateStampToTime_withYear[of "''Apr  6  2022''" chicago "unixTime 1730734200 0"]
      parseDateStampToTime_withYear[of "''Apr  6  2022''" chicago "unixTime 0 0"]
      1 2 s u
    by blast
qed

theorem parseDateStampToTime_both_fail_witness:
  "parseDateStampToTime chicago (unixTime 1730734200 0) ''boogityboo''
     = Inl (TimeParseError \<lparr>Layout = ''Jan 2 2006'', Value = ''boogityboo'', LayoutElem = ''Jan'',
                            ValueElem = ''boogityboo'', Message = NoMessage\<rparr>)
   \<and> parseDateStampToTime chicago (unixTime 1730734200 0) ''Apr  96  2022''
     = Inl (TimeParseError \<lparr>Layout = ''Jan 2 2006'', Value = ''Apr  96  2022'', LayoutElem = [],
                            ValueElem = [], Message = DayOutOfRange\<rparr>)"
proof -
  have 1: "ParseInLocation dateWithTimeNoYearLayout ''boogityboo'' chicago =
      Inl \<lparr>Layout = ''Jan  2 15:04'', Value = ''boogityboo'', LayoutElem = ''Jan'',
           ValueElem = ''boogityboo'', Message = NoMessage\<rparr>"
    by code_simp
  have 2: "ParseInLocation dateWithYearLayout ''boogityboo'' chicago =
      Inl \<lparr>Layout = ''Jan 2 2006'', Value = ''boogityboo'', LayoutElem = ''Jan'',
           ValueElem = ''boogityboo'', Message = NoMessage\<rparr>"
    by code_simp
  have 3: "ParseInLocation dateWithTimeNoYearLayout ''Apr  96  2022'' chicago =
      Inl \<lparr>Layout = ''Jan  2 15:04'', Value = ''Apr  96  2022'', LayoutElem = '':'',
           ValueElem = ''22'', Message = NoMessage\<rparr>"
    by code_simp
  have 4: "ParseInLocation dateWithYearLayout ''Apr  96  2022'' chicago =
      Inl \<lparr>Layout = ''Jan 2 2006'', Value = ''Apr  96  2022'', LayoutElem = [],
           ValueElem = [], Message = DayOutOfRange\<rparr>"
    by code_simp
  show ?thesis
    using parseDateStampToTime_both_fail[OF 1 2] parseDateStampToTime_both_fail[OF 3 4] by simp
qed

theorem fileIsRecent_iff_witness:
  "fileIsRecent \<lparr>wall_sec = 63832384800, wall_nsec = 5\<rparr>
     \<lparr>filename = ''/path/to/recent_file.txt'',
      created = \<lparr>wall_sec = 63832384800 - 7 * 86400, wall_nsec = 5\<rparr>, isDirectory = False\<rparr>
   \<and> \<not> fileIsRecent \<lparr>wall_sec = 63832384800, wall_nsec = 5\<rparr>
     \<lparr>filename = ''/path/to/old_file.txt'',
      created = \<lparr>wall_sec = 63832384800 - 30 * 86400, wall_nsec = 5\<rparr>, isDirectory = False\<rparr>
   \<and> fileIsRecent \<lparr>wall_sec = 63832384800, wall_nsec = 5\<rparr>
     \<lparr>filename = ''/path/to/edge_file.txt'',
      created = \<lparr>wall_sec = 63832384800 - 30 * 86400, wall_nsec = 6\<rparr>, isDirectory = False\<rparr>
   \<and> \<not> fileIsRecent \<lparr>wall_sec = 63832384800, wall_nsec = 5\<rparr>
     \<lparr>filename = ''/path/to/ancient_file.txt'',
      created = \<lparr>wall_sec = - 9000000000000, wall_nsec = 0\<rparr>, isDirectory = False\<rparr>"
  using fileIsRecent_iff[of "\<lparr>wall_sec = 63832384800, wall_nsec = 5\<rparr>"
      "\<lparr>filename = ''/path/to/recent_file.txt'',
        created = \<lparr>wall_sec = 63832384800 - 7 * 86400, wall_nsec = 5\<rparr>, isDirectory = False\<rparr>"]
    fileIsRecent_iff[of "\<lparr>wall_sec = 63832384800, wall_nsec = 5\<rparr>"
      "\<lparr>filename = ''/path/to/old_file.txt'',
        created = \<lparr>wall_sec = 63832384800 - 30 * 86400, wall_nsec = 5\<rparr>, isDirectory = False\<rparr>"]
    fileIsRecent_iff[of "\<lparr>wall_sec = 63832384800, wall_nsec = 5\<rparr>"
      "\<lparr>filename = ''/path/to/edge_file.txt'',
        created = \<lparr>wall_sec = 63832384800 - 30 * 86400, wall_nsec = 6\<rparr>, isDirectory = False\<rparr>"]
    fileIsRecent_iff[of "\<lparr>wall_sec = 63832384800, wall_nsec = 5\<rparr>"
      "\<lparr>filename = ''/path/to/ancient_file.txt'',
        created = \<lparr>wall_sec = - 9000000000000, wall_nsec = 0\<rparr>, isDirectory = False\<rparr>"]
  by simp

section \<open>The matcher against the language of an expression\<close>

inductive_cases matches_CapE: "matches (Cap n a) w"




















section \<open>The first match on a line of the shape\<close>






































end
